theory Spec2Isabelle
  imports Complex_Main "HOL-Library.Log_Nat"
begin

section \<open>IEEE binary64 arithmetic, as far as the program uses it\<close>

text \<open>
  The thresholds and band values of \<^verbatim>\<open>synchronized_lights.py\<close> are Python floats and
  numpy \<^verbatim>\<open>float64\<close> values. A value is a rational (the finite doubles are rationals), an
  infinity or NaN; every operation computes exactly and then rounds to the nearest double,
  ties to even, with gradual underflow (least exponent \<open>-1074\<close>) and overflow to infinity
  at \<open>2 ^ 1024\<close>. The sign of zero is not represented: the program never divides by a
  computed zero other than in \<open>0.0 / 0\<close>, and comparisons do not see it.
\<close>

datatype float64 = Finite rat | PosInf | NegInf | NaN

definition ilog2 :: "rat \<Rightarrow> int" where
  \<comment> \<open>\<open>\<lfloor>log\<^sub>2 x\<rfloor>\<close> of a positive rational, from the bit lengths of numerator and denominator\<close>
  "ilog2 x = (let (p, q) = quotient_of x; d = bitlen p - bitlen q
              in if 2 powi d \<le> x then d else d - 1)"

definition round_half_even :: "rat \<Rightarrow> int" where
  "round_half_even y =
     (let f = \<lfloor>y\<rfloor>; r = y - of_int f
      in if r < 1 / 2 then f else if 1 / 2 < r then f + 1 else if even f then f else f + 1)"

definition ulp_exp :: "rat \<Rightarrow> int" where
  \<comment> \<open>exponent of the unit in the last place of the binade of \<open>x\<close>: 53 significant bits\<close>
  "ulp_exp x = max (- 1074) (ilog2 \<bar>x\<bar> - 52)"

definition round64 :: "rat \<Rightarrow> float64" where
  "round64 x =
     (if x = 0 then Finite 0
      else let e = ulp_exp x; r = of_int (round_half_even (x / 2 powi e)) * 2 powi e
           in if 2 powi 1024 \<le> r then PosInf
              else if r \<le> - (2 powi 1024) then NegInf
              else Finite r)"

fun is_neg :: "float64 \<Rightarrow> bool" where
  "is_neg (Finite a) = (a < 0)"
| "is_neg NegInf = True"
| "is_neg _ = False"

fun fmul :: "float64 \<Rightarrow> float64 \<Rightarrow> float64" where
  "fmul (Finite a) (Finite b) = round64 (a * b)"
| "fmul NaN y = NaN"
| "fmul x NaN = NaN"
| "fmul x y = (if x = Finite 0 \<or> y = Finite 0 then NaN
               else if is_neg x = is_neg y then PosInf else NegInf)"

fun fadd :: "float64 \<Rightarrow> float64 \<Rightarrow> float64" where
  "fadd (Finite a) (Finite b) = round64 (a + b)"
| "fadd NaN y = NaN"
| "fadd x NaN = NaN"
| "fadd PosInf NegInf = NaN"
| "fadd NegInf PosInf = NaN"
| "fadd (Finite a) y = y"
| "fadd x y = x"

fun fdiv :: "float64 \<Rightarrow> float64 \<Rightarrow> float64" where
  \<comment> \<open>numpy division: a zero divisor gives NaN or an infinity (and a warning), no exception\<close>
  "fdiv (Finite a) (Finite b) =
     (if b = 0 then (if a = 0 then NaN else if 0 < a then PosInf else NegInf)
      else round64 (a / b))"
| "fdiv NaN y = NaN"
| "fdiv x NaN = NaN"
| "fdiv (Finite a) y = Finite 0"
| "fdiv x (Finite b) = (if is_neg x = (b < 0) then PosInf else NegInf)"
| "fdiv x y = NaN"

fun flt :: "float64 \<Rightarrow> float64 \<Rightarrow> bool" where
  \<comment> \<open>\<open>x < y\<close>: false whenever an operand is NaN\<close>
  "flt (Finite a) (Finite b) = (a < b)"
| "flt NaN y = False"
| "flt x NaN = False"
| "flt NegInf y = (y \<noteq> NegInf)"
| "flt x PosInf = (x \<noteq> PosInf)"
| "flt x y = False"

definition fgt :: "float64 \<Rightarrow> float64 \<Rightarrow> bool" where
  "fgt x y = flt y x"

fun clip :: "rat \<Rightarrow> rat \<Rightarrow> float64 \<Rightarrow> float64" where
  \<comment> \<open>\<^verbatim>\<open>ndarray.clip(lo, hi)\<close>: \<^verbatim>\<open>minimum(maximum(x, lo), hi)\<close>, NaN stays NaN\<close>
  "clip lo hi (Finite a) = Finite (min hi (max lo a))"
| "clip lo hi PosInf = Finite (min hi (max lo hi))"
| "clip lo hi NegInf = Finite (min hi lo)"
| "clip lo hi NaN = NaN"

text \<open>The float literals of the source, each the double nearest to the decimal.\<close>

definition lit_0_6 :: float64 where "lit_0_6 = round64 (6 / 10)"
definition lit_1_2 :: float64 where "lit_1_2 = round64 (12 / 10)"
definition lit_0_8 :: float64 where "lit_0_8 = round64 (8 / 10)"

section \<open>The frequency-band analyzer\<close>

datatype error = IOError | IndexError | ValueError | ZeroDivisionError | CsvError

definition chunk :: int where "chunk = 4096"

definition weighting :: "int list" where
  "weighting = [2, 2, 4, 4, 8, 16, 32, 16]"

definition bands :: "(int \<times> int) list" where
  \<comment> \<open>the frequency ranges of lines 195 to 202, in Hz\<close>
  "bands = [(0, 156), (156, 313), (313, 625), (625, 1250), (1250, 2500), (2500, 5000),
            (5000, 10000), (10000, 15000)]"

definition piff :: "int \<Rightarrow> int \<Rightarrow> int" where
  \<comment> \<open>\<^verbatim>\<open>int(2*chunk*val/sample_rate)\<close> on Python 2 integers: floor division. The caller has
      excluded \<open>sample_rate = 0\<close>.\<close>
  "piff sample_rate val = (2 * chunk * val) div sample_rate"

definition py_slice :: "'a list \<Rightarrow> int \<Rightarrow> int \<Rightarrow> 'a list" where
  \<comment> \<open>\<^verbatim>\<open>xs[a:b:1]\<close>: bounds are clamped, negative bounds count from the end\<close>
  "py_slice xs a b =
     (let n = int (length xs);
          lo = (if a < 0 then max 0 (a + n) else min a n);
          hi = (if b < 0 then max 0 (b + n) else min b n)
      in take (nat (hi - lo)) (drop (nat lo) xs))"

definition np_mean :: "float64 list \<Rightarrow> float64" where
  \<comment> \<open>\<^verbatim>\<open>np.mean\<close> of a one-dimensional float64 array: the sum (added from the left, as
      numpy's reduction did when the program was written) divided by the count. Over an
      empty slice this is \<open>0.0 / 0\<close>: NaN and a \<^verbatim>\<open>RuntimeWarning\<close>, not an exception.\<close>
  "np_mean xs = fdiv (foldl fadd (Finite 0) xs) (Finite (of_nat (length xs)))"

definition calculate_levels :: "('b \<Rightarrow> float64 list) \<Rightarrow> 'b \<Rightarrow> int \<Rightarrow> error + float64 list" where
  \<comment> \<open>\<open>spectrum data\<close> stands for lines 187 to 194: the magnitudes of numpy's real FFT of
      the unpacked samples, last bin deleted. Division by a zero sample rate raises in
      \<^verbatim>\<open>piff\<close>.\<close>
  "calculate_levels spectrum data sample_rate =
     (if sample_rate = 0 then Inl ZeroDivisionError
      else let power = spectrum data;
               matrix = map (\<lambda>(lo, hi). np_mean (py_slice power (piff sample_rate lo)
                                                   (piff sample_rate hi))) bands;
               matrix = map2 (\<lambda>m w. fdiv (fmul m (Finite (of_int w))) (Finite 100000))
                          matrix weighting
           in Inr (map (clip 0 100) matrix))"

section \<open>Program state and light control\<close>

datatype log_msg =
    CacheNotFound string
  | RanOut
  | LimitUp nat float64
  | LimitDown nat float64
  | CacheWritten string nat

record state =
  limit :: "float64 list"
  offct :: "int list"
  cache :: "string list list"
  cache_found :: bool
  row :: nat
  entry :: "string list"
  gpio_out :: "(nat \<times> bool) list"
  logged :: "log_msg list"
  fft_calls :: nat

text \<open>
  \<open>gpio_out\<close> is the sequence of \<^verbatim>\<open>GPIO.output(pin, level)\<close> calls made so far, oldest
  first; \<open>logged\<close> the sequence of \<^verbatim>\<open>l.log\<close> calls; \<open>fft_calls\<close> counts the calls of
  \<^verbatim>\<open>calculate_levels\<close>. The other fields are the program's variables of the same names.
\<close>

definition gpio :: "nat list" where
  "gpio = [11, 12, 13, 15, 16, 18, 22, 7]"

definition TurnOffLight :: "nat \<Rightarrow> state \<Rightarrow> state" where
  "TurnOffLight i s = s\<lparr>gpio_out := gpio_out s @ [(gpio ! i, False)]\<rparr>"

definition TurnOnLight :: "nat \<Rightarrow> state \<Rightarrow> state" where
  "TurnOnLight i s = s\<lparr>gpio_out := gpio_out s @ [(gpio ! i, True)]\<rparr>"

definition TurnOffLights :: "state \<Rightarrow> state" where
  "TurnOffLights s = fold TurnOffLight [0..<8] s"

definition init_state :: state where
  \<comment> \<open>lines 139 to 146, 168, 169 and 210\<close>
  "init_state = TurnOffLights
     \<lparr>limit = replicate 8 (Finite 5), offct = replicate 8 0, cache = [], cache_found = False,
      row = 0, entry = [], gpio_out = [], logged = [], fft_calls = 0\<rparr>"

definition lights_of :: "(nat \<times> bool) list \<Rightarrow> nat \<Rightarrow> bool" where
  \<comment> \<open>the level each pin holds after a sequence of writes (low before the first)\<close>
  "lights_of calls = foldl (\<lambda>f (pin, level). f(pin := level)) (\<lambda>_. False) calls"

section \<open>The threshold controller (fresh mode)\<close>

definition recalibrate :: "float64 list \<Rightarrow> nat \<Rightarrow> state \<Rightarrow> state" where
  \<comment> \<open>lines 232 to 234\<close>
  "recalibrate matrix i s =
     (if flt (limit s ! i) (fmul (matrix ! i) lit_0_6)
      then let s' = s\<lparr>limit := (limit s)[i := fmul (limit s ! i) lit_1_2]\<rparr>
           in s'\<lparr>logged := logged s' @ [LimitUp i (limit s' ! i)]\<rparr>
      else s)"

definition decide :: "float64 list \<Rightarrow> nat \<Rightarrow> state \<Rightarrow> state" where
  \<comment> \<open>lines 235 to 246\<close>
  "decide matrix i s =
     (if fgt (matrix ! i) (limit s ! i)
      then let s1 = TurnOnLight i s;
               s2 = s1\<lparr>offct := (offct s1)[i := 0]\<rparr>
           in s2\<lparr>entry := entry s2 @ [''1'']\<rparr>
      else let s1 = s\<lparr>offct := (offct s)[i := offct s ! i + 1]\<rparr>;
               s2 = (if 10 < offct s1 ! i
                     then let t = s1\<lparr>offct := (offct s1)[i := 0]\<rparr>
                          in t\<lparr>limit := (limit t)[i := fmul (limit t ! i) lit_0_8]\<rparr>
                     else s1);
               s3 = s2\<lparr>logged := logged s2 @ [LimitDown i (limit s2 ! i)]\<rparr>;
               s4 = TurnOffLight i s3
           in s4\<lparr>entry := entry s4 @ [''0'']\<rparr>)"

definition channel_step :: "float64 list \<Rightarrow> nat \<Rightarrow> state \<Rightarrow> state" where
  \<comment> \<open>the body of the loop of line 231\<close>
  "channel_step matrix i s = decide matrix i (recalibrate matrix i s)"

definition update_channels :: "float64 list \<Rightarrow> state \<Rightarrow> state" where
  \<comment> \<open>lines 229 and 231 to 247, for the band values \<open>matrix\<close>\<close>
  "update_channels matrix s =
     (let s1 = fold (channel_step matrix) [0..<8] (s\<lparr>entry := []\<rparr>)
      in s1\<lparr>cache := cache s1 @ [entry s1]\<rparr>)"

section \<open>The cache file: csv rows in a gzip file\<close>

text \<open>
  The cache is written by \<^verbatim>\<open>csv.writer(f, delimiter=',').writerows(cache)\<close> and read by
  iterating \<^verbatim>\<open>csv.reader(f, delimiter=',')\<close>, both of Python 2's standard library in the
  default (excel) dialect. The reader below is the character automaton of the library;
  \<open>None\<close> is the end-of-line signal the library gives it after each line.
\<close>

abbreviation LF :: char where "LF \<equiv> CHR 0x0A"
abbreviation CR :: char where "CR \<equiv> CHR 0x0D"
abbreviation NUL :: char where "NUL \<equiv> CHR 0x00"
abbreviation DQ :: char where "DQ \<equiv> CHR 0x22"

datatype parse_state =
  START_RECORD | START_FIELD | IN_FIELD | IN_QUOTED_FIELD | QUOTE_IN_QUOTED_FIELD | EAT_CRNL

record reader =
  pstate :: parse_state
  rec_fields :: "string list"
  rec_field :: string

definition field_limit :: nat where "field_limit = 131072"

definition parse_reset :: reader where
  "parse_reset = \<lparr>pstate = START_RECORD, rec_fields = [], rec_field = []\<rparr>"

definition parse_add_char :: "reader \<Rightarrow> char \<Rightarrow> error + reader" where
  "parse_add_char r c =
     (if field_limit \<le> length (rec_field r) then Inl CsvError else Inr (r\<lparr>rec_field := rec_field r @ [c]\<rparr>))"

definition parse_save_field :: "reader \<Rightarrow> reader" where
  "parse_save_field r = r\<lparr>rec_fields := rec_fields r @ [rec_field r], rec_field := []\<rparr>"

definition set_pstate :: "parse_state \<Rightarrow> error + reader \<Rightarrow> error + reader" where
  "set_pstate st x = (case x of Inl e \<Rightarrow> Inl e | Inr r \<Rightarrow> Inr (r\<lparr>pstate := st\<rparr>))"

definition start_field :: "reader \<Rightarrow> char option \<Rightarrow> error + reader" where
  "start_field r c =
     (case c of
        None \<Rightarrow> Inr ((parse_save_field r)\<lparr>pstate := START_RECORD\<rparr>)
      | Some ch \<Rightarrow>
          if ch = LF \<or> ch = CR then Inr ((parse_save_field r)\<lparr>pstate := EAT_CRNL\<rparr>)
          else if ch = DQ then Inr (r\<lparr>pstate := IN_QUOTED_FIELD\<rparr>)
          else if ch = CHR '','' then Inr (parse_save_field r)
          else set_pstate IN_FIELD (parse_add_char r ch))"

definition parse_process_char :: "reader \<Rightarrow> char option \<Rightarrow> error + reader" where
  "parse_process_char r c =
     (case pstate r of
        START_RECORD \<Rightarrow>
          (case c of
             None \<Rightarrow> Inr r
           | Some ch \<Rightarrow>
               if ch = LF \<or> ch = CR then Inr (r\<lparr>pstate := EAT_CRNL\<rparr>)
               else start_field (r\<lparr>pstate := START_FIELD\<rparr>) c)
      | START_FIELD \<Rightarrow> start_field r c
      | IN_FIELD \<Rightarrow>
          (case c of
             None \<Rightarrow> Inr ((parse_save_field r)\<lparr>pstate := START_RECORD\<rparr>)
           | Some ch \<Rightarrow>
               if ch = LF \<or> ch = CR then Inr ((parse_save_field r)\<lparr>pstate := EAT_CRNL\<rparr>)
               else if ch = CHR '','' then Inr ((parse_save_field r)\<lparr>pstate := START_FIELD\<rparr>)
               else parse_add_char r ch)
      | IN_QUOTED_FIELD \<Rightarrow>
          (case c of
             None \<Rightarrow> Inr r
           | Some ch \<Rightarrow>
               if ch = DQ then Inr (r\<lparr>pstate := QUOTE_IN_QUOTED_FIELD\<rparr>)
               else parse_add_char r ch)
      | QUOTE_IN_QUOTED_FIELD \<Rightarrow>
          (case c of
             None \<Rightarrow> Inr ((parse_save_field r)\<lparr>pstate := START_RECORD\<rparr>)
           | Some ch \<Rightarrow>
               if ch = DQ then set_pstate IN_QUOTED_FIELD (parse_add_char r ch)
               else if ch = CHR '','' then Inr ((parse_save_field r)\<lparr>pstate := START_FIELD\<rparr>)
               else if ch = LF \<or> ch = CR then Inr ((parse_save_field r)\<lparr>pstate := EAT_CRNL\<rparr>)
               else set_pstate IN_FIELD (parse_add_char r ch))
      | EAT_CRNL \<Rightarrow>
          (case c of
             None \<Rightarrow> Inr (r\<lparr>pstate := START_RECORD\<rparr>)
           | Some ch \<Rightarrow> if ch = LF \<or> ch = CR then Inr r else Inl CsvError))"

fun read_line_chars :: "reader \<Rightarrow> string \<Rightarrow> error + reader" where
  "read_line_chars r [] = Inr r"
| "read_line_chars r (c # cs) =
     (if c = NUL then Inl CsvError
      else case parse_process_char r (Some c) of
             Inl e \<Rightarrow> Inl e
           | Inr r' \<Rightarrow> read_line_chars r' cs)"

fun csv_lines :: "reader \<Rightarrow> string list list \<Rightarrow> string list \<Rightarrow> error + string list list" where
  \<comment> \<open>the rows the reader yields, given its state, the rows yielded so far and the
      lines still to come; a record ends when the automaton is back in \<open>START_RECORD\<close>
      at the end of a line\<close>
  "csv_lines r rows [] =
     (if rec_field r \<noteq> [] \<or> pstate r = IN_QUOTED_FIELD
      then Inr (rows @ [rec_fields (parse_save_field r)])
      else Inr rows)"
| "csv_lines r rows (l # ls) =
     (case read_line_chars r l of
        Inl e \<Rightarrow> Inl e
      | Inr r1 \<Rightarrow>
          (case parse_process_char r1 None of
             Inl e \<Rightarrow> Inl e
           | Inr r2 \<Rightarrow>
               if pstate r2 = START_RECORD then csv_lines parse_reset (rows @ [rec_fields r2]) ls
               else csv_lines r2 rows ls))"

fun py_lines :: "string \<Rightarrow> string \<Rightarrow> string list" where
  \<comment> \<open>the lines a Python 2 file object iterates over: each ends after its \<^verbatim>\<open>'\n'\<close>;
      the first argument is the line read so far\<close>
  "py_lines cur [] = (if cur = [] then [] else [cur])"
| "py_lines cur (c # cs) =
     (if c = LF then (cur @ [c]) # py_lines [] cs else py_lines (cur @ [c]) cs)"

definition csv_reader :: "string \<Rightarrow> error + string list list" where
  "csv_reader txt = csv_lines parse_reset [] (py_lines [] txt)"

definition needs_quotes :: "string \<Rightarrow> bool" where
  "needs_quotes f = (\<exists>c \<in> set f. c = CHR '','' \<or> c = DQ \<or> c = CR \<or> c = LF)"

definition write_field :: "bool \<Rightarrow> string \<Rightarrow> string" where
  \<comment> \<open>one field under \<^verbatim>\<open>QUOTE_MINIMAL\<close>; the library copies a field up to its first NUL;
      \<open>alone\<close> says that the row has no other field\<close>
  "write_field alone f0 =
     (let f = takeWhile (\<lambda>c. c \<noteq> NUL) f0
      in if needs_quotes f \<or> (f = [] \<and> alone)
         then DQ # concat (map (\<lambda>c. if c = DQ then [c, c] else [c]) f) @ [DQ]
         else f)"

fun join_fields :: "string list \<Rightarrow> string" where
  "join_fields [] = []"
| "join_fields [f] = f"
| "join_fields (f # g # fs) = f @ CHR '','' # join_fields (g # fs)"

definition writerow :: "string list \<Rightarrow> string" where
  "writerow r = join_fields (map (write_field (length r = 1)) r) @ [CR, LF]"

definition writerows :: "string list list \<Rightarrow> string" where
  "writerows rs = concat (map writerow rs)"

text \<open>
  The file system maps a path to the uncompressed content of the gzip file stored there
  (gzip is lossless, and a missing file makes \<^verbatim>\<open>gzip.open\<close> raise \<^verbatim>\<open>IOError\<close>). Files
  that are no gzip files, or that cannot be written, are outside the model.
\<close>

type_synonym filesystem = "string \<rightharpoonup> string"

definition path_split :: "string \<Rightarrow> string \<times> string" where
  \<comment> \<open>\<^verbatim>\<open>posixpath.split\<close>\<close>
  "path_split p =
     (let tail = rev (takeWhile (\<lambda>c. c \<noteq> CHR ''/'') (rev p));
          head = take (length p - length tail) p
      in (if head \<noteq> [] \<and> \<not> list_all (\<lambda>c. c = CHR ''/'') head
          then rev (dropWhile (\<lambda>c. c = CHR ''/'') (rev head)) else head,
          tail))"

definition cache_filename :: "string \<Rightarrow> string" where
  \<comment> \<open>line 170; \<open>file\<close> is the absolute path of line 164\<close>
  "cache_filename file = fst (path_split file) @ ''/.'' @ snd (path_split file) @ ''.sync.gz''"

definition load_cache :: "filesystem \<Rightarrow> string \<Rightarrow> state \<Rightarrow> error + state" where
  \<comment> \<open>lines 168 to 178; a \<^verbatim>\<open>csv.Error\<close> is not caught\<close>
  "load_cache fs name s =
     (let s0 = s\<lparr>cache := [], cache_found := False\<rparr>
      in case fs name of
           None \<Rightarrow> Inr (s0\<lparr>logged := logged s0 @ [CacheNotFound name]\<rparr>)
         | Some txt \<Rightarrow>
             (case csv_reader txt of
                Inl e \<Rightarrow> Inl e
              | Inr rows \<Rightarrow> Inr (s0\<lparr>cache := rows, cache_found := True\<rparr>)))"

definition store_cache :: "filesystem \<Rightarrow> string \<Rightarrow> state \<Rightarrow> filesystem \<times> state" where
  \<comment> \<open>lines 253 to 257\<close>
  "store_cache fs name s =
     (if \<not> cache_found s
      then (fs(name \<mapsto> writerows (cache s)),
            s\<lparr>logged := logged s @ [CacheWritten name (length (cache s))]\<rparr>)
      else (fs, s))"

section \<open>The main loop\<close>

definition py_isspace :: "char \<Rightarrow> bool" where
  "py_isspace c = (c \<in> set [CHR '' '', CHR 0x09, LF, CHR 0x0B, CHR 0x0C, CR])"

definition py_isdigit :: "char \<Rightarrow> bool" where
  "py_isdigit c = (c \<in> set ''0123456789'')"

definition digit_val :: "char \<Rightarrow> int" where
  "digit_val c = int (of_char c) - 48"

definition py_int :: "string \<Rightarrow> error + int" where
  \<comment> \<open>\<^verbatim>\<open>int(s)\<close> of a byte string: optional blanks, optional sign, decimal digits,
      optional blanks; anything else raises \<^verbatim>\<open>ValueError\<close>\<close>
  "py_int s =
     (let t = dropWhile py_isspace (rev (dropWhile py_isspace (rev s)));
          neg = (t \<noteq> [] \<and> hd t = CHR ''-'');
          d = (if t \<noteq> [] \<and> (hd t = CHR ''-'' \<or> hd t = CHR ''+'') then tl t else t)
      in if d \<noteq> [] \<and> list_all py_isdigit d
         then Inr ((if neg then - 1 else 1) * foldl (\<lambda>a c. 10 * a + digit_val c) 0 d)
         else Inl ValueError)"

fun replay_channels :: "nat list \<Rightarrow> state \<Rightarrow> error + state" where
  \<comment> \<open>the loop of lines 219 to 223 over the remaining channels; \<open>entry s\<close> is the cached row\<close>
  "replay_channels [] s = Inr s"
| "replay_channels (i # is) s =
     (if length (entry s) \<le> i then Inl IndexError
      else case py_int (entry s ! i) of
             Inl e \<Rightarrow> Inl e
           | Inr v \<Rightarrow> replay_channels is (if v \<noteq> 0 then TurnOnLight i s else TurnOffLight i s))"

definition process_block :: "('b \<Rightarrow> float64 list) \<Rightarrow> int \<Rightarrow> 'b \<Rightarrow> state \<Rightarrow> error + state" where
  \<comment> \<open>lines 216 to 247 for one block \<open>data\<close>\<close>
  "process_block spectrum sample_rate data s =
     (if cache_found s then
        (if row s < length (cache s)
         then replay_channels [0..<8] (s\<lparr>entry := cache s ! row s\<rparr>)
         else Inr (s\<lparr>logged := logged s @ [RanOut]\<rparr>))
      else
        (case calculate_levels spectrum data sample_rate of
           Inl e \<Rightarrow> Inl e
         | Inr matrix \<Rightarrow> Inr (update_channels matrix (s\<lparr>fft_calls := fft_calls s + 1\<rparr>))))"

fun process_audio :: "('b \<Rightarrow> float64 list) \<Rightarrow> int \<Rightarrow> 'b list \<Rightarrow> state \<Rightarrow> error + state" where
  \<comment> \<open>the loop of lines 212 to 251 over the blocks that \<^verbatim>\<open>readframes\<close> returns before the
      empty one\<close>
  "process_audio spectrum sample_rate [] s = Inr s"
| "process_audio spectrum sample_rate (data # rest) s =
     (case process_block spectrum sample_rate data s of
        Inl e \<Rightarrow> Inl e
      | Inr s' \<Rightarrow> process_audio spectrum sample_rate rest (s'\<lparr>row := row s' + 1\<rparr>))"


section \<open>Auxiliary notions for the proofs\<close>

text \<open>
  None of the following is program code. They are the notions in which the lemmas and the
  claims are stated: projections of the loop body to one channel, invariants of the
  thresholds, and the shape of the rows that a fresh run produces.
\<close>

definition rounded :: "rat \<Rightarrow> rat" where
  \<comment> \<open>the value \<open>round64\<close> returns when it does not overflow\<close>
  "rounded x = of_int (round_half_even (x / 2 powi ulp_exp x)) * 2 powi ulp_exp x"

definition grown :: "float64 \<Rightarrow> float64 \<Rightarrow> float64" where
  \<comment> \<open>the threshold of a channel after lines 232 to 234, from the band value \<open>m\<close> and
      the threshold \<open>l\<close> before\<close>
  "grown m l = (if flt l (fmul m lit_0_6) then fmul l lit_1_2 else l)"

definition chan_on :: "float64 \<Rightarrow> float64 \<Rightarrow> bool" where
  \<comment> \<open>the decision of line 235\<close>
  "chan_on m l = fgt m (grown m l)"

definition chan_limit :: "float64 \<Rightarrow> float64 \<Rightarrow> int \<Rightarrow> float64" where
  \<comment> \<open>the threshold of a channel after one pass of the loop body, \<open>k\<close> its off-count before\<close>
  "chan_limit m l k =
     (if chan_on m l then grown m l
      else if 10 < k + 1 then fmul (grown m l) lit_0_8 else grown m l)"

definition chan_offct :: "float64 \<Rightarrow> float64 \<Rightarrow> int \<Rightarrow> int" where
  \<comment> \<open>the off-count of a channel after one pass of the loop body\<close>
  "chan_offct m l k = (if chan_on m l then 0 else if 10 < k + 1 then 0 else k + 1)"

definition bit_str :: "bool \<Rightarrow> string" where
  "bit_str b = (if b then ''1'' else ''0'')"

definition wf_state :: "state \<Rightarrow> bool" where
  \<comment> \<open>the lists of lines 145 and 146 keep their eight entries\<close>
  "wf_state s = (length (limit s) = 8 \<and> length (offct s) = 8)"

definition after_updates :: "float64 list list \<Rightarrow> state \<Rightarrow> state" where
  \<comment> \<open>the controller fed a sequence of band vectors, one pass over the channels for each\<close>
  "after_updates ms s = fold update_channels ms s"

fun thr_pos :: "float64 \<Rightarrow> bool" where
  \<comment> \<open>at least the least positive double, or \<open>+\<infinity>\<close>\<close>
  "thr_pos (Finite q) = (2 powi (- 1074) \<le> q)"
| "thr_pos PosInf = True"
| "thr_pos NegInf = False"
| "thr_pos NaN = False"

fun in_0_100 :: "float64 \<Rightarrow> bool" where
  "in_0_100 (Finite b) = (0 \<le> b \<and> b \<le> 100)"
| "in_0_100 _ = False"

fun thr_inv :: "float64 \<Rightarrow> bool" where
  \<comment> \<open>a positive double below 72 which, from 32 on, is a multiple of \<open>1 / 2 ^ 47\<close>, the
      spacing of the doubles between 32 and 64\<close>
  "thr_inv (Finite q) =
     (2 powi (- 1074) \<le> q \<and> q < 72 \<and> (q < 32 \<or> of_int \<lfloor>q * 2 ^ 47\<rfloor> = q * 2 ^ 47))"
| "thr_inv _ = False"

definition plain_char :: "char \<Rightarrow> bool" where
  \<comment> \<open>a character that the csv writer never quotes and the reader takes as field content\<close>
  "plain_char c = (c \<noteq> CHR '','' \<and> c \<noteq> DQ \<and> c \<noteq> CR \<and> c \<noteq> LF \<and> c \<noteq> NUL)"

definition plain_field :: "string \<Rightarrow> bool" where
  "plain_field f = (f \<noteq> [] \<and> list_all plain_char f \<and> length f \<le> field_limit)"

definition plain_row :: "string list \<Rightarrow> bool" where
  "plain_row r = (r \<noteq> [] \<and> list_all plain_field r)"

definition bit_row :: "string list \<Rightarrow> bool" where
  \<comment> \<open>a row as line 247 appends it: one \<^verbatim>\<open>'0'\<close> or \<^verbatim>\<open>'1'\<close> for each of the eight channels\<close>
  "bit_row r = (length r = 8 \<and> list_all (\<lambda>f. f = ''0'' \<or> f = ''1'') r)"

definition sync_record :: "string list list \<Rightarrow> bool" where
  "sync_record rs = list_all bit_row rs"

definition row_events :: "string list \<Rightarrow> (nat \<times> bool) list" where
  \<comment> \<open>the \<^verbatim>\<open>GPIO.output\<close> calls that belong to a row: pin \<open>gpio ! j\<close> high iff field
      \<open>j\<close> is \<^verbatim>\<open>'1'\<close>\<close>
  "row_events r = map (\<lambda>j. (gpio ! j, r ! j = ''1'')) [0..<8]"

section \<open>Rounding to binary64\<close>

lemma two_powi_pos: "0 < (2::rat) powi k"
  by (simp add: zero_less_power_int)

lemma bitlen_rat_bounds:
  assumes "0 < p"
  shows "(2::rat) powi (bitlen p - 1) \<le> of_int p" and "of_int p < (2::rat) powi bitlen p"
proof -
  have b1: "1 \<le> bitlen p" using assms by (simp add: bitlen_alt_def)
  from bitlen_bounds[OF assms]
  have lo: "2 ^ nat (bitlen p - 1) \<le> p" and hi: "p < 2 ^ nat (bitlen p)" by simp_all
  have "(of_int (2 ^ nat (bitlen p - 1)) :: rat) \<le> of_int p"
    using lo by (simp only: of_int_le_iff)
  then show "(2::rat) powi (bitlen p - 1) \<le> of_int p"
    using b1 by (simp add: power_int_nonneg_exp)
  have "(of_int p :: rat) < of_int (2 ^ nat (bitlen p))"
    using hi by (simp only: of_int_less_iff)
  then show "of_int p < (2::rat) powi bitlen p"
    using b1 by (simp add: power_int_nonneg_exp)
qed

lemma ilog2_bounds:
  assumes "0 < x"
  shows "2 powi ilog2 x \<le> x" and "x < 2 powi (ilog2 x + 1)"
proof -
  obtain p q where pq: "quotient_of x = (p, q)" by force
  have q: "0 < q" using quotient_of_denom_pos[OF pq] .
  have x: "x = of_int p / of_int q" using quotient_of_div[OF pq] .
  have p: "0 < p" using assms q x by (simp add: zero_less_divide_iff)
  define a b where "a = bitlen p" and "b = bitlen q"
  note pa = bitlen_rat_bounds[OF p, folded a_def]
  note qb = bitlen_rat_bounds[OF q, folded b_def]
  have qpos: "(0::rat) < of_int q" using q by simp
  have "2 powi (a - 1 - b) = (2::rat) powi (a - 1) / 2 powi b"
    by (rule power_int_diff) simp
  also have "\<dots> \<le> of_int p / of_int q"
    using pa(1) qb(2) qpos p by (intro frac_le) simp_all
  finally have lo: "2 powi (a - b - 1) \<le> x"
    by (simp add: x algebra_simps)
  have "of_int p / of_int q < (2::rat) powi a / 2 powi (b - 1)"
    using pa(2) qb(1) p two_powi_pos[of "b - 1"] by (intro frac_less) simp_all
  also have "\<dots> = 2 powi (a - (b - 1))"
    by (rule power_int_diff[symmetric]) simp
  finally have hi: "x < 2 powi (a - b + 1)"
    by (simp add: x algebra_simps)
  have il: "ilog2 x = (if 2 powi (a - b) \<le> x then a - b else a - b - 1)"
    by (simp add: ilog2_def pq a_def b_def Let_def)
  show "2 powi ilog2 x \<le> x"
    using lo by (simp add: il)
  show "x < 2 powi (ilog2 x + 1)"
    using hi by (auto simp add: il not_le)
qed

lemma ilog2_unique:
  assumes "2 powi k \<le> x" and "x < 2 powi (k + 1)"
  shows "ilog2 x = k"
proof -
  have x: "0 < x" using two_powi_pos[of k] assms(1) by linarith
  note b = ilog2_bounds[OF x]
  have "(2::rat) powi ilog2 x < 2 powi (k + 1)" using b(1) assms(2) by linarith
  then have 1: "ilog2 x < k + 1"
    by (metis power_int_increasing not_le one_le_numeral)
  have "(2::rat) powi k < 2 powi (ilog2 x + 1)" using b(2) assms(1) by linarith
  then have 2: "k < ilog2 x + 1"
    by (metis power_int_increasing not_le one_le_numeral)
  from 1 2 show ?thesis by simp
qed

lemma ilog2_le:
  assumes "0 < x" and "x \<le> 2 powi k"
  shows "ilog2 x \<le> k"
proof -
  have "(2::rat) powi ilog2 x \<le> 2 powi k" using ilog2_bounds(1)[OF assms(1)] assms(2) by linarith
  then show ?thesis
    by (metis power_int_strict_increasing not_le one_less_numeral_iff semiring_norm(76))
qed

lemma ilog2_ge:
  assumes "2 powi k \<le> x"
  shows "k \<le> ilog2 x"
proof -
  have x: "0 < x" using two_powi_pos[of k] assms(1) by linarith
  have "(2::rat) powi k < 2 powi (ilog2 x + 1)" using ilog2_bounds(2)[OF x] assms by linarith
  then have "k < ilog2 x + 1"
    by (metis power_int_increasing not_le one_le_numeral)
  then show ?thesis by simp
qed

lemma round_half_even_le:
  assumes "y \<le> of_int n + 1 / 2" and "y < of_int n + 1 / 2 \<or> even n"
  shows "round_half_even y \<le> n"
proof -
  have f: "\<lfloor>y\<rfloor> \<le> n" using assms(1) by (simp add: floor_le_iff) 
  show ?thesis
  proof (cases "\<lfloor>y\<rfloor> = n")
    case True
    then show ?thesis using assms by (auto simp add: round_half_even_def Let_def)
  next
    case False
    then have "\<lfloor>y\<rfloor> + 1 \<le> n" using f by simp
    then show ?thesis by (auto simp add: round_half_even_def Let_def)
  qed
qed

lemma round_half_even_ge:
  assumes "of_int n - 1 / 2 \<le> y" and "of_int n - 1 / 2 < y \<or> even n"
  shows "n \<le> round_half_even y"
proof -
  have f: "n - 1 \<le> \<lfloor>y\<rfloor>" using assms(1) by (simp add: le_floor_iff)
  show ?thesis
  proof (cases "\<lfloor>y\<rfloor> = n - 1")
    case True
    then have "y - of_int \<lfloor>y\<rfloor> = y - of_int n + 1" by simp
    then show ?thesis using assms True by (auto simp add: round_half_even_def Let_def)
  next
    case False
    then have "n \<le> \<lfloor>y\<rfloor>" using f by simp
    then show ?thesis by (auto simp add: round_half_even_def Let_def)
  qed
qed

lemma round_half_even_int [simp]: "round_half_even (of_int n) = n"
  by (simp add: round_half_even_def)

lemma ulp_exp_ge: "- 1074 \<le> ulp_exp x"
  by (simp add: ulp_exp_def)

lemma ulp_exp_binade:
  assumes "2 powi k \<le> x" and "x < 2 powi (k + 1)" and "- 1022 \<le> k"
  shows "ulp_exp x = k - 52"
proof -
  have x: "0 < x" using two_powi_pos[of k] assms(1) by linarith
  have "ilog2 x = k" using assms(1,2) by (rule ilog2_unique)
  then show ?thesis using x assms(3) by (simp add: ulp_exp_def)
qed

lemma ulp_exp_le:
  assumes "0 < x" and "x \<le> 2 powi k" and "- 1074 \<le> k"
  shows "ulp_exp x \<le> k"
  using ilog2_le[OF assms(1,2)] assms(1,3) by (simp add: ulp_exp_def)

lemma round64_rounded:
  "x \<noteq> 0 \<Longrightarrow> round64 x = (if 2 powi 1024 \<le> rounded x then PosInf
                              else if rounded x \<le> - (2 powi 1024) then NegInf
                              else Finite (rounded x))"
  by (simp add: round64_def rounded_def Let_def)

lemma rounded_nonneg:
  assumes "0 < x"
  shows "0 \<le> rounded x"
proof -
  have "0 \<le> x / 2 powi ulp_exp x" using assms two_powi_pos[of "ulp_exp x"] by simp
  then have "0 \<le> round_half_even (x / 2 powi ulp_exp x)"
    by (intro round_half_even_ge) auto
  then show ?thesis using two_powi_pos[of "ulp_exp x"] by (simp add: rounded_def)
qed

lemma round64_pos:
  assumes "0 < x"
  shows "round64 x = (if 2 powi 1024 \<le> rounded x then PosInf else Finite (rounded x))"
proof -
  have "\<not> rounded x \<le> - (2 powi 1024)"
    using rounded_nonneg[OF assms] two_powi_pos[of 1024] by linarith
  then show ?thesis using assms by (simp add: round64_rounded)
qed

lemma rounded_ge_min:
  assumes "2 powi (- 1075) < x"
  shows "2 powi (- 1074) \<le> rounded x"
proof -
  have x: "0 < x" using two_powi_pos[of "- 1075"] assms by linarith
  let ?e = "ulp_exp x"
  have half: "1 / 2 < x / 2 powi ?e"
  proof (cases "?e = - 1074")
    case True
    have "(2::rat) powi (- 1075) = (1 / 2) * 2 powi (- 1074)"
      using power_int_add[of "2::rat" "- 1" "- 1074"] by simp
    then have "(1 / 2) * 2 powi (- 1074) < x" using assms by simp
    then show ?thesis using two_powi_pos[of "- 1074"] by (simp add: True pos_less_divide_eq)
  next
    case False
    then have e: "?e = ilog2 x - 52" using x by (simp add: ulp_exp_def max_def split: if_splits)
    have "(2::rat) powi (?e + 52) \<le> x" using ilog2_bounds(1)[OF x] by (simp add: e)
    then have "2 powi ?e * (2::rat) powi 52 \<le> x" by (simp add: power_int_add)
    then have "(2::rat) powi 52 \<le> x / 2 powi ?e"
      using two_powi_pos[of ?e] by (simp add: pos_le_divide_eq mult.commute)
    moreover have "(1::rat) / 2 < 2 powi 52" by simp
    ultimately show ?thesis by linarith
  qed
  have "1 \<le> round_half_even (x / 2 powi ?e)"
    using half by (intro round_half_even_ge) auto
  then have "(1::rat) \<le> of_int (round_half_even (x / 2 powi ?e))" by simp
  then have "1 * 2 powi ?e \<le> rounded x"
    unfolding rounded_def using two_powi_pos[of ?e] by (intro mult_right_mono) simp_all
  moreover have "(2::rat) powi (- 1074) \<le> 2 powi ?e"
    using ulp_exp_ge[of x] by (intro power_int_increasing) simp_all
  ultimately show ?thesis by simp
qed

lemma rounded_le_grid:
  assumes "x \<le> of_int n * 2 powi ulp_exp x"
  shows "rounded x \<le> of_int n * 2 powi ulp_exp x"
proof -
  have "x / 2 powi ulp_exp x \<le> of_int n"
    using assms two_powi_pos[of "ulp_exp x"] by (simp add: pos_divide_le_eq)
  then have "round_half_even (x / 2 powi ulp_exp x) \<le> n"
    by (intro round_half_even_le) auto
  then have "(of_int (round_half_even (x / 2 powi ulp_exp x)) :: rat) \<le> of_int n" by simp
  then show ?thesis
    unfolding rounded_def using two_powi_pos[of "ulp_exp x"] by (intro mult_right_mono) simp_all
qed

lemma rounded_le_pow2:
  assumes "0 < x" and "x \<le> 2 powi k" and "- 1074 \<le> k"
  shows "rounded x \<le> 2 powi k"
proof -
  have e: "ulp_exp x \<le> k" using assms by (rule ulp_exp_le)
  have "(2::rat) powi k = 2 powi (k - ulp_exp x) * 2 powi ulp_exp x"
    by (simp flip: power_int_add)
  also have "(2::rat) powi (k - ulp_exp x) = of_int (2 ^ nat (k - ulp_exp x))"
    using e by (simp add: power_int_nonneg_exp)
  finally have g: "(2::rat) powi k = of_int (2 ^ nat (k - ulp_exp x)) * 2 powi ulp_exp x" .
  show ?thesis
    using rounded_le_grid[of x "2 ^ nat (k - ulp_exp x)"] assms(2) unfolding g[symmetric] by simp
qed

lemma rounded_le_int:
  assumes "0 < x" and "x \<le> of_int n" and "x \<le> 2 powi 52"
  shows "rounded x \<le> of_int n"
proof -
  have e: "ulp_exp x \<le> 0"
    using ilog2_le[OF assms(1,3)] assms(1) by (simp add: ulp_exp_def)
  have "(of_int n :: rat) = of_int n * (2 powi (- ulp_exp x) * 2 powi ulp_exp x)"
    by (simp flip: power_int_add)
  also have "(2::rat) powi (- ulp_exp x) = of_int (2 ^ nat (- ulp_exp x))"
    using e by (simp add: power_int_nonneg_exp)
  finally have g: "(of_int n :: rat) = of_int (n * 2 ^ nat (- ulp_exp x)) * 2 powi ulp_exp x"
    by (simp add: mult.assoc)
  show ?thesis
    using rounded_le_grid[of x "n * 2 ^ nat (- ulp_exp x)"] assms(2) unfolding g[symmetric] by simp
qed

lemma rounded_binade:
  assumes "2 powi k \<le> x" and "x < 2 powi (k + 1)" and "- 1022 \<le> k"
  shows "rounded x = of_int (round_half_even (x * 2 powi (52 - k))) * 2 powi (k - 52)"
proof -
  have "x / 2 powi (k - 52) = x * 2 powi (52 - k)"
    using power_int_minus[of "2::rat" "k - 52"] by (simp add: field_simps)
  then show ?thesis
    by (simp add: rounded_def ulp_exp_binade[OF assms])
qed

lemma round64_binade:
  assumes "2 powi k \<le> x" and "x < 2 powi (k + 1)" and "- 1022 \<le> k" and "k \<le> 1022"
  shows "round64 x = Finite (of_int (round_half_even (x * 2 powi (52 - k))) * 2 powi (k - 52))"
proof -
  have x: "0 < x" using two_powi_pos[of k] assms(1) by linarith
  have "rounded x \<le> 2 powi (k + 1)"
    using assms(2,3) by (intro rounded_le_pow2[OF x]) simp_all
  also have "\<dots> < (2::rat) powi 1024"
    using assms(4) by (intro power_int_strict_increasing) simp_all
  finally have "\<not> 2 powi 1024 \<le> rounded x" by simp
  then show ?thesis
    by (simp add: round64_pos[OF x] rounded_binade[OF assms(1,2,3)])
qed

lemma round_half_even_near:
  assumes "of_int n - 1 / 2 < y" and "y < of_int n + 1 / 2"
  shows "round_half_even y = n"
  using round_half_even_le[of y n] round_half_even_ge[of n y] assms by simp

lemma round64_near:
  assumes "2 powi k \<le> x" and "x < 2 powi (k + 1)" and "- 1022 \<le> k" and "k \<le> 1022"
    and "of_int n - 1 / 2 < x * 2 powi (52 - k)" and "x * 2 powi (52 - k) < of_int n + 1 / 2"
  shows "round64 x = Finite (of_int n * 2 powi (k - 52))"
  by (simp add: round64_binade[OF assms(1-4)] round_half_even_near[OF assms(5,6)])

lemma lit_0_6_eq: "lit_0_6 = Finite (5404319552844595 / 9007199254740992)"
  unfolding lit_0_6_def
  by (subst round64_near[where k = "- 1" and n = 5404319552844595]) simp_all

lemma lit_1_2_eq: "lit_1_2 = Finite (5404319552844595 / 4503599627370496)"
  unfolding lit_1_2_def
  by (subst round64_near[where k = 0 and n = 5404319552844595]) simp_all

lemma lit_0_8_eq: "lit_0_8 = Finite (3602879701896397 / 4503599627370496)"
  unfolding lit_0_8_def
  by (subst round64_near[where k = "- 1" and n = 7205759403792794]) simp_all

lemma five_times_lit_1_2: "fmul (Finite 5) lit_1_2 = Finite 6"
  unfolding lit_1_2_eq fmul.simps
  by (subst round64_near[where k = 2 and n = 6755399441055744]) simp_all

lemma ten_times_lit_0_6: "fmul (Finite 10) lit_0_6 = Finite 6"
  unfolding lit_0_6_eq fmul.simps
  by (subst round64_near[where k = 2 and n = 6755399441055744]) simp_all

lemma five_times_lit_0_6: "fmul (Finite 5) lit_0_6 = Finite 3"
  unfolding lit_0_6_eq fmul.simps
  by (subst round64_near[where k = 1 and n = 6755399441055744]) simp_all

lemma five_times_lit_0_8: "fmul (Finite 5) lit_0_8 = Finite 4"
  unfolding lit_0_8_eq fmul.simps
  by (subst round64_near[where k = 2 and n = 4503599627370496]) simp_all

section \<open>One pass of the threshold controller\<close>

lemma flt_irrefl: "\<not> flt x x"
  by (cases x) auto

lemma recalibrate_fields:
  "offct (recalibrate m i s) = offct s"
  "entry (recalibrate m i s) = entry s"
  "gpio_out (recalibrate m i s) = gpio_out s"
  "cache (recalibrate m i s) = cache s"
  "cache_found (recalibrate m i s) = cache_found s"
  "row (recalibrate m i s) = row s"
  "fft_calls (recalibrate m i s) = fft_calls s"
  by (simp_all add: recalibrate_def Let_def)

lemma recalibrate_limit:
  "limit (recalibrate m i s) = (if flt (limit s ! i) (fmul (m ! i) lit_0_6)
     then (limit s)[i := fmul (limit s ! i) lit_1_2] else limit s)"
  by (simp add: recalibrate_def Let_def)

lemma recalibrate_limit_nth:
  "i < length (limit s) \<Longrightarrow> limit (recalibrate m i s) ! i = grown (m ! i) (limit s ! i)"
  by (simp add: recalibrate_limit grown_def)

lemma decide_fields:
  "cache (decide m i s) = cache s"
  "cache_found (decide m i s) = cache_found s"
  "row (decide m i s) = row s"
  "fft_calls (decide m i s) = fft_calls s"
  "entry (decide m i s) = entry s @ [bit_str (fgt (m ! i) (limit s ! i))]"
  "gpio_out (decide m i s) = gpio_out s @ [(gpio ! i, fgt (m ! i) (limit s ! i))]"
  by (simp_all add: decide_def Let_def TurnOnLight_def TurnOffLight_def bit_str_def)

lemma decide_limit:
  "i < length (offct s) \<Longrightarrow> limit (decide m i s) =
     (if fgt (m ! i) (limit s ! i) then limit s
      else if 10 < offct s ! i + 1 then (limit s)[i := fmul (limit s ! i) lit_0_8] else limit s)"
  by (simp add: decide_def Let_def TurnOnLight_def TurnOffLight_def)

lemma decide_offct:
  "i < length (offct s) \<Longrightarrow> offct (decide m i s) =
     (offct s)[i := (if fgt (m ! i) (limit s ! i) then 0
                     else if 10 < offct s ! i + 1 then 0 else offct s ! i + 1)]"
  by (simp add: decide_def Let_def TurnOnLight_def TurnOffLight_def)

lemma channel_step_fields:
  "cache (channel_step m i s) = cache s"
  "cache_found (channel_step m i s) = cache_found s"
  "row (channel_step m i s) = row s"
  "fft_calls (channel_step m i s) = fft_calls s"
  by (simp_all add: channel_step_def decide_fields recalibrate_fields)

lemma channel_step_out:
  assumes "i < length (limit s)"
  shows "entry (channel_step m i s) = entry s @ [bit_str (chan_on (m ! i) (limit s ! i))]"
    and "gpio_out (channel_step m i s) = gpio_out s @ [(gpio ! i, chan_on (m ! i) (limit s ! i))]"
  using assms
  by (simp_all add: channel_step_def decide_fields recalibrate_fields recalibrate_limit_nth chan_on_def)

lemma channel_step_limit:
  assumes "i < length (limit s)" "i < length (offct s)"
  shows "limit (channel_step m i s) = (limit s)[i := chan_limit (m ! i) (limit s ! i) (offct s ! i)]"
  using assms
  by (auto simp add: channel_step_def decide_limit recalibrate_fields recalibrate_limit_nth
      chan_limit_def chan_on_def recalibrate_limit grown_def)

lemma channel_step_offct:
  assumes "i < length (limit s)" "i < length (offct s)"
  shows "offct (channel_step m i s) = (offct s)[i := chan_offct (m ! i) (limit s ! i) (offct s ! i)]"
  using assms
  by (simp add: channel_step_def decide_offct recalibrate_fields recalibrate_limit_nth
      chan_offct_def chan_on_def)

lemma fold_channel_step:
  assumes "length (offct s) = length (limit s)"
  shows "n \<le> length (limit s) \<Longrightarrow>
     limit (fold (channel_step m) [0..<n] s) =
       map (\<lambda>j. if j < n then chan_limit (m ! j) (limit s ! j) (offct s ! j) else limit s ! j)
         [0..<length (limit s)]
     \<and> offct (fold (channel_step m) [0..<n] s) =
       map (\<lambda>j. if j < n then chan_offct (m ! j) (limit s ! j) (offct s ! j) else offct s ! j)
         [0..<length (limit s)]
     \<and> entry (fold (channel_step m) [0..<n] s) =
       entry s @ map (\<lambda>j. bit_str (chan_on (m ! j) (limit s ! j))) [0..<n]
     \<and> gpio_out (fold (channel_step m) [0..<n] s) =
       gpio_out s @ map (\<lambda>j. (gpio ! j, chan_on (m ! j) (limit s ! j))) [0..<n]
     \<and> cache (fold (channel_step m) [0..<n] s) = cache s
     \<and> cache_found (fold (channel_step m) [0..<n] s) = cache_found s
     \<and> row (fold (channel_step m) [0..<n] s) = row s
     \<and> fft_calls (fold (channel_step m) [0..<n] s) = fft_calls s"
proof (induction n)
  case 0
  show ?case using assms map_nth[of "limit s"] map_nth[of "offct s"] by simp
next
  case (Suc n)
  let ?t = "fold (channel_step m) [0..<n] s"
  from Suc.prems have n: "n < length (limit s)" by simp
  then have "n \<le> length (limit s)" by simp
  from Suc.IH[OF this] have IH: "limit ?t =
       map (\<lambda>j. if j < n then chan_limit (m ! j) (limit s ! j) (offct s ! j) else limit s ! j)
         [0..<length (limit s)]"
     "offct ?t =
       map (\<lambda>j. if j < n then chan_offct (m ! j) (limit s ! j) (offct s ! j) else offct s ! j)
         [0..<length (limit s)]"
     "entry ?t = entry s @ map (\<lambda>j. bit_str (chan_on (m ! j) (limit s ! j))) [0..<n]"
     "gpio_out ?t = gpio_out s @ map (\<lambda>j. (gpio ! j, chan_on (m ! j) (limit s ! j))) [0..<n]"
     "cache ?t = cache s" "cache_found ?t = cache_found s" "row ?t = row s"
     "fft_calls ?t = fft_calls s"
    by blast+
  have len: "n < length (limit ?t)" "n < length (offct ?t)"
    using n by (simp_all add: IH)
  have nth: "limit ?t ! n = limit s ! n" "offct ?t ! n = offct s ! n"
    using n by (simp_all add: IH)
  have step: "fold (channel_step m) [0..<Suc n] s = channel_step m n ?t"
    by simp
  have L: "limit (channel_step m n ?t) =
       map (\<lambda>j. if j < Suc n then chan_limit (m ! j) (limit s ! j) (offct s ! j)
                else limit s ! j) [0..<length (limit s)]"
    unfolding channel_step_limit[OF len] nth
    by (rule nth_equalityI) (auto simp add: IH nth_list_update less_Suc_eq)
  have O: "offct (channel_step m n ?t) =
       map (\<lambda>j. if j < Suc n then chan_offct (m ! j) (limit s ! j) (offct s ! j)
                else offct s ! j) [0..<length (limit s)]"
    unfolding channel_step_offct[OF len] nth
    by (rule nth_equalityI) (auto simp add: IH nth_list_update less_Suc_eq)
  have E: "entry (channel_step m n ?t) =
       entry s @ map (\<lambda>j. bit_str (chan_on (m ! j) (limit s ! j))) [0..<Suc n]"
    unfolding channel_step_out[OF len(1)] nth by (simp add: IH)
  have G: "gpio_out (channel_step m n ?t) =
       gpio_out s @ map (\<lambda>j. (gpio ! j, chan_on (m ! j) (limit s ! j))) [0..<Suc n]"
    unfolding channel_step_out[OF len(1)] nth by (simp add: IH)
  show ?case
    unfolding step using L O E G by (simp add: channel_step_fields IH)
qed

lemma update_channels_eq:
  assumes "wf_state s"
  shows "limit (update_channels m s) =
           map (\<lambda>j. chan_limit (m ! j) (limit s ! j) (offct s ! j)) [0..<8]"
    and "offct (update_channels m s) =
           map (\<lambda>j. chan_offct (m ! j) (limit s ! j) (offct s ! j)) [0..<8]"
    and "entry (update_channels m s) = map (\<lambda>j. bit_str (chan_on (m ! j) (limit s ! j))) [0..<8]"
    and "cache (update_channels m s) =
           cache s @ [map (\<lambda>j. bit_str (chan_on (m ! j) (limit s ! j))) [0..<8]]"
    and "gpio_out (update_channels m s) =
           gpio_out s @ map (\<lambda>j. (gpio ! j, chan_on (m ! j) (limit s ! j))) [0..<8]"
    and "cache_found (update_channels m s) = cache_found s"
    and "row (update_channels m s) = row s"
    and "fft_calls (update_channels m s) = fft_calls s"
proof -
  let ?s = "s\<lparr>entry := []\<rparr>"
  have a: "length (offct ?s) = length (limit ?s)" "8 \<le> length (limit ?s)"
    using assms by (simp_all add: wf_state_def)
  note f = fold_channel_step[OF a(1) a(2), of m]
  have l8: "length (limit s) = 8" using assms by (simp add: wf_state_def)
  show "limit (update_channels m s) =
           map (\<lambda>j. chan_limit (m ! j) (limit s ! j) (offct s ! j)) [0..<8]"
    using f l8 by (simp add: update_channels_def Let_def)
  show "offct (update_channels m s) =
           map (\<lambda>j. chan_offct (m ! j) (limit s ! j) (offct s ! j)) [0..<8]"
    using f l8 by (simp add: update_channels_def Let_def)
  show "entry (update_channels m s) = map (\<lambda>j. bit_str (chan_on (m ! j) (limit s ! j))) [0..<8]"
    using f l8 by (simp add: update_channels_def Let_def)
  show "cache (update_channels m s) =
           cache s @ [map (\<lambda>j. bit_str (chan_on (m ! j) (limit s ! j))) [0..<8]]"
    using f l8 by (simp add: update_channels_def Let_def)
  show "gpio_out (update_channels m s) =
           gpio_out s @ map (\<lambda>j. (gpio ! j, chan_on (m ! j) (limit s ! j))) [0..<8]"
    using f l8 by (simp add: update_channels_def Let_def)
  show "cache_found (update_channels m s) = cache_found s"
    using f l8 by (simp add: update_channels_def Let_def)
  show "row (update_channels m s) = row s"
    using f l8 by (simp add: update_channels_def Let_def)
  show "fft_calls (update_channels m s) = fft_calls s"
    using f l8 by (simp add: update_channels_def Let_def)
qed

lemma update_channels_wf: "wf_state s \<Longrightarrow> wf_state (update_channels m s)"
  by (simp add: wf_state_def update_channels_eq[unfolded wf_state_def])

lemma update_channels_nth:
  assumes "wf_state s" "i < 8"
  shows "limit (update_channels m s) ! i = chan_limit (m ! i) (limit s ! i) (offct s ! i)"
    and "offct (update_channels m s) ! i = chan_offct (m ! i) (limit s ! i) (offct s ! i)"
    and "entry (update_channels m s) ! i = bit_str (chan_on (m ! i) (limit s ! i))"
  using assms(2) by (simp_all add: update_channels_eq[OF assms(1)] del: upt_Suc)

lemma fold_TurnOffLight:
  "fold TurnOffLight js s = s\<lparr>gpio_out := gpio_out s @ map (\<lambda>j. (gpio ! j, False)) js\<rparr>"
  by (induction js arbitrary: s) (simp_all add: TurnOffLight_def)

lemma TurnOffLights_eq:
  "TurnOffLights s = s\<lparr>gpio_out := gpio_out s @ map (\<lambda>j. (gpio ! j, False)) [0..<8]\<rparr>"
  by (simp only: TurnOffLights_def fold_TurnOffLight)

lemma init_state_fields:
  "limit init_state = replicate 8 (Finite 5)"
  "offct init_state = replicate 8 0"
  "cache init_state = []"
  "cache_found init_state = False"
  "row init_state = 0"
  "fft_calls init_state = 0"
  "gpio_out init_state = map (\<lambda>j. (gpio ! j, False)) [0..<8]"
  by (simp_all add: init_state_def TurnOffLights_eq)

lemma wf_init_state: "wf_state init_state"
  by (simp add: wf_state_def init_state_fields)

lemma after_updates_wf: "wf_state s \<Longrightarrow> wf_state (after_updates ms s)"
  unfolding after_updates_def
  by (induction ms arbitrary: s) (simp_all add: update_channels_wf)

lemma after_updates_take_Suc:
  "k < length ms \<Longrightarrow>
     after_updates (take (Suc k) ms) s = update_channels (ms ! k) (after_updates (take k ms) s)"
  by (simp add: after_updates_def take_Suc_conv_app_nth)

section \<open>The claims about the threshold controller\<close>

text \<open>
  Claim C3. In one pass of the controller over a block, a channel whose band value is
  exactly equal to its threshold at decision time (the threshold after the recalibration
  of lines 232 to 234) is classified OFF: the row entry is \<^verbatim>\<open>'0'\<close> and the pin is driven
  low. The comparison of line 235 is a strict \<open>>\<close>.
\<close>

theorem boundary_value_is_off:
  assumes "wf_state s" and "i < 8" and "m ! i = limit (recalibrate m i s) ! i"
  shows "entry (update_channels m s) ! i = ''0''
       \<and> last (cache (update_channels m s)) ! i = ''0''
       \<and> gpio_out (update_channels m s) ! (length (gpio_out s) + i) = (gpio ! i, False)"
proof -
  have li: "i < length (limit s)" using assms(1,2) by (simp add: wf_state_def)
  have "m ! i = grown (m ! i) (limit s ! i)"
    using assms(3) by (simp add: recalibrate_limit_nth[OF li])
  then have off: "\<not> chan_on (m ! i) (limit s ! i)"
    using flt_irrefl[of "m ! i"] by (simp add: chan_on_def fgt_def)
  show ?thesis
    using assms(2) off
    by (simp add: update_channels_eq[OF assms(1)] bit_str_def nth_append del: upt_Suc)
qed

theorem boundary_value_is_off_witness:
  "wf_state init_state \<and> (0::nat) < 8
   \<and> replicate 8 (Finite 5) ! 0 = limit (recalibrate (replicate 8 (Finite 5)) 0 init_state) ! 0
   \<and> entry (update_channels (replicate 8 (Finite 5)) init_state) ! 0 = ''0''
   \<and> last (cache (update_channels (replicate 8 (Finite 5)) init_state)) ! 0 = ''0''
   \<and> gpio_out (update_channels (replicate 8 (Finite 5)) init_state) ! (length (gpio_out init_state) + 0)
       = (gpio ! 0, False)"
proof -
  have h1: "wf_state init_state" by (rule wf_init_state)
  have h2: "(0::nat) < 8" by simp
  have h3: "replicate 8 (Finite 5) ! 0 = limit (recalibrate (replicate 8 (Finite 5)) 0 init_state) ! 0"
    by (simp add: recalibrate_limit init_state_fields five_times_lit_0_6)
  show ?thesis
    using boundary_value_is_off[OF h1 h2 h3] h1 h2 h3 by blast
qed

lemma upt_8: "[0..<8] = [0, 1, 2, 3, 4, 5, 6, 7]"
  by (simp add: upt_rec)

lemma replicate_8: "replicate 8 x = [x, x, x, x, x, x, x, x]"
  by (simp add: numeral_eq_Suc)

text \<open>
  Claim C4. For every channel the loop body first recalibrates (if the threshold is below
  0.6 times the band value it is multiplied by 1.2) and then decides ON or OFF against the
  threshold that the recalibration left. A controller in its initial state (thresholds
  5.0) fed the band value 10.0 on every channel ends with every threshold exactly 6.0 and
  every channel ON.
\<close>

theorem recalibrate_before_decide:
  "(\<forall>s m i. wf_state s \<longrightarrow> i < 8 \<longrightarrow>
      limit (recalibrate m i s) ! i =
        (if flt (limit s ! i) (fmul (m ! i) lit_0_6) then fmul (limit s ! i) lit_1_2
         else limit s ! i)
      \<and> entry (update_channels m s) ! i =
          (if fgt (m ! i) (limit (recalibrate m i s) ! i) then ''1'' else ''0'')
      \<and> gpio_out (update_channels m s) ! (length (gpio_out s) + i) =
          (gpio ! i, fgt (m ! i) (limit (recalibrate m i s) ! i)))
   \<and> limit (update_channels (replicate 8 (Finite 10)) init_state) = replicate 8 (Finite 6)
   \<and> entry (update_channels (replicate 8 (Finite 10)) init_state) = replicate 8 ''1''
   \<and> gpio_out (update_channels (replicate 8 (Finite 10)) init_state) =
       gpio_out init_state @ map (\<lambda>j. (gpio ! j, True)) [0..<8]"
proof (intro conjI allI impI)
  fix s :: state and m :: "float64 list" and i :: nat
  assume wf: "wf_state s" and i: "i < 8"
  then have li: "i < length (limit s)" by (simp add: wf_state_def)
  show "limit (recalibrate m i s) ! i =
        (if flt (limit s ! i) (fmul (m ! i) lit_0_6) then fmul (limit s ! i) lit_1_2
         else limit s ! i)"
    by (simp add: recalibrate_limit_nth[OF li] grown_def)
  show "entry (update_channels m s) ! i =
          (if fgt (m ! i) (limit (recalibrate m i s) ! i) then ''1'' else ''0'')"
    by (simp add: update_channels_nth[OF wf i] recalibrate_limit_nth[OF li] chan_on_def bit_str_def)
  show "gpio_out (update_channels m s) ! (length (gpio_out s) + i) =
          (gpio ! i, fgt (m ! i) (limit (recalibrate m i s) ! i))"
    using i
    by (simp add: update_channels_eq[OF wf] recalibrate_limit_nth[OF li] chan_on_def nth_append
        del: upt_Suc)
next
  have g: "grown (Finite 10) (Finite 5) = Finite 6"
    by (simp add: grown_def ten_times_lit_0_6 five_times_lit_1_2)
  have on: "chan_on (Finite 10) (Finite 5)"
    by (simp add: chan_on_def g fgt_def)
  have cl: "chan_limit (Finite 10) (Finite 5) k = Finite 6" for k
    by (simp add: chan_limit_def on g)
  show "limit (update_channels (replicate 8 (Finite 10)) init_state) = replicate 8 (Finite 6)"
    by (simp add: update_channels_eq[OF wf_init_state] init_state_fields upt_8 replicate_8 cl)
  show "entry (update_channels (replicate 8 (Finite 10)) init_state) = replicate 8 ''1''"
    by (simp add: update_channels_eq[OF wf_init_state] init_state_fields upt_8 replicate_8 on bit_str_def)
  show "gpio_out (update_channels (replicate 8 (Finite 10)) init_state) =
       gpio_out init_state @ map (\<lambda>j. (gpio ! j, True)) [0..<8]"
    by (simp add: update_channels_eq[OF wf_init_state] init_state_fields upt_8 replicate_8 on)
qed

theorem recalibrate_before_decide_witness:
  "wf_state init_state \<and> (0::nat) < 8
   \<and> limit (recalibrate (replicate 8 (Finite 10)) 0 init_state) ! 0 = Finite 6
   \<and> entry (update_channels (replicate 8 (Finite 10)) init_state) ! 0 = ''1''"
proof -
  have h1: "wf_state init_state" by (rule wf_init_state)
  have h2: "(0::nat) < 8" by simp
  from recalibrate_before_decide
  have "limit (recalibrate (replicate 8 (Finite 10)) 0 init_state) ! 0 =
        (if flt (limit init_state ! 0) (fmul (replicate 8 (Finite 10) ! 0) lit_0_6)
         then fmul (limit init_state ! 0) lit_1_2 else limit init_state ! 0)
      \<and> entry (update_channels (replicate 8 (Finite 10)) init_state) ! 0 =
          (if fgt (replicate 8 (Finite 10) ! 0)
                (limit (recalibrate (replicate 8 (Finite 10)) 0 init_state) ! 0)
           then ''1'' else ''0'')"
    using h1 h2 by blast
  then show ?thesis
    using h1 h2
    by (simp add: init_state_fields ten_times_lit_0_6 five_times_lit_1_2 fgt_def)
qed

lemma update_channels_off:
  assumes "wf_state t" and "i < 8"
    and "\<not> fgt (m ! i) (limit (recalibrate m i t) ! i)"
  shows "offct (update_channels m t) ! i = (if 10 < offct t ! i + 1 then 0 else offct t ! i + 1)"
    and "limit (update_channels m t) ! i =
          (if 10 < offct t ! i + 1 then fmul (limit (recalibrate m i t) ! i) lit_0_8
           else limit (recalibrate m i t) ! i)"
proof -
  have li: "i < length (limit t)" using assms(1,2) by (simp add: wf_state_def)
  have off: "\<not> chan_on (m ! i) (limit t ! i)"
    using assms(3) by (simp add: chan_on_def recalibrate_limit_nth[OF li])
  show "offct (update_channels m t) ! i = (if 10 < offct t ! i + 1 then 0 else offct t ! i + 1)"
    by (simp add: update_channels_nth[OF assms(1,2)] chan_offct_def off)
  show "limit (update_channels m t) ! i =
          (if 10 < offct t ! i + 1 then fmul (limit (recalibrate m i t) ! i) lit_0_8
           else limit (recalibrate m i t) ! i)"
    by (simp add: update_channels_nth[OF assms(1,2)] chan_limit_def off
        recalibrate_limit_nth[OF li])
qed

lemma update_channels_on:
  assumes "wf_state t" and "i < 8"
    and "fgt (m ! i) (limit (recalibrate m i t) ! i)"
  shows "offct (update_channels m t) ! i = 0"
    and "limit (update_channels m t) ! i = limit (recalibrate m i t) ! i"
proof -
  have li: "i < length (limit t)" using assms(1,2) by (simp add: wf_state_def)
  have on: "chan_on (m ! i) (limit t ! i)"
    using assms(3) by (simp add: chan_on_def recalibrate_limit_nth[OF li])
  show "offct (update_channels m t) ! i = 0"
    by (simp add: update_channels_nth[OF assms(1,2)] chan_offct_def on)
  show "limit (update_channels m t) ! i = limit (recalibrate m i t) ! i"
    by (simp add: update_channels_nth[OF assms(1,2)] chan_limit_def on
        recalibrate_limit_nth[OF li])
qed

text \<open>
  Claim C5. A channel whose off-count is 0 and that is decided OFF in each of 11
  consecutive passes: after each of the passes 1 to 10 its off-count is the number of the
  pass and its threshold is what the recalibration left (no decay); the 11th pass
  multiplies the recalibrated threshold by 0.8 and leaves the off-count at 0. An ON
  decision, in any state, sets the off-count to 0 and leaves the recalibrated threshold
  as it is.
\<close>

theorem eleven_off_blocks_decay_once:
  assumes wf: "wf_state s" and i: "i < 8" and z: "offct s ! i = 0" and len: "length ms = 11"
    and off: "\<forall>k<11. \<not> fgt (ms ! k ! i)
                (limit (recalibrate (ms ! k) i (after_updates (take k ms) s)) ! i)"
  shows "(\<forall>k<10. offct (after_updates (take (Suc k) ms) s) ! i = int (Suc k)
            \<and> limit (after_updates (take (Suc k) ms) s) ! i =
                limit (recalibrate (ms ! k) i (after_updates (take k ms) s)) ! i)
       \<and> offct (after_updates ms s) ! i = 0
       \<and> limit (after_updates ms s) ! i =
           fmul (limit (recalibrate (ms ! 10) i (after_updates (take 10 ms) s)) ! i) lit_0_8
       \<and> (\<forall>t m. wf_state t \<longrightarrow> fgt (m ! i) (limit (recalibrate m i t) ! i) \<longrightarrow>
            offct (update_channels m t) ! i = 0
            \<and> limit (update_channels m t) ! i = limit (recalibrate m i t) ! i)"
proof -
  let ?S = "\<lambda>k. after_updates (take k ms) s"
  have wfS: "wf_state (?S k)" for k by (rule after_updates_wf[OF wf])
  have step: "?S (Suc k) = update_channels (ms ! k) (?S k)" if "k < 11" for k
    using that len by (simp add: after_updates_take_Suc)
  have offk: "\<not> fgt (ms ! k ! i) (limit (recalibrate (ms ! k) i (?S k)) ! i)" if "k < 11" for k
    using off that by blast
  have cnt: "k \<le> 10 \<Longrightarrow> offct (?S k) ! i = int k" for k
  proof (induction k)
    case 0
    show ?case using z by (simp add: after_updates_def)
  next
    case (Suc k)
    then have k: "k < 11" and IH: "offct (?S k) ! i = int k" by simp_all
    show ?case
      unfolding step[OF k] using Suc.prems
      by (simp add: update_channels_off(1)[OF wfS i offk[OF k]] IH)
  qed
  have A: "\<forall>k<10. offct (?S (Suc k)) ! i = int (Suc k)
            \<and> limit (?S (Suc k)) ! i = limit (recalibrate (ms ! k) i (?S k)) ! i"
  proof (intro allI impI)
    fix k :: nat assume k10: "k < 10"
    then have k: "k < 11" by simp
    have c: "offct (?S k) ! i = int k" using k10 by (intro cnt) simp
    have "limit (?S (Suc k)) ! i = limit (recalibrate (ms ! k) i (?S k)) ! i"
      unfolding step[OF k] using k10
      by (simp add: update_channels_off(2)[OF wfS i offk[OF k]] c)
    moreover have "offct (?S (Suc k)) ! i = int (Suc k)"
      using k10 by (intro cnt) simp
    ultimately show "offct (?S (Suc k)) ! i = int (Suc k)
            \<and> limit (?S (Suc k)) ! i = limit (recalibrate (ms ! k) i (?S k)) ! i" by simp
  qed
  have all: "?S 11 = after_updates ms s" using len by simp
  have c10: "offct (?S 10) ! i = 10" using cnt[of 10] by simp
  have s11: "?S 11 = update_channels (ms ! 10) (?S 10)"
    using step[of 10] by (simp add: eval_nat_numeral)
  have B: "offct (after_updates ms s) ! i = 0"
    unfolding all[symmetric] s11
    by (simp add: update_channels_off(1)[OF wfS i offk[of 10, simplified]] c10)
  have C: "limit (after_updates ms s) ! i =
           fmul (limit (recalibrate (ms ! 10) i (?S 10)) ! i) lit_0_8"
    unfolding all[symmetric] s11
    by (simp add: update_channels_off(2)[OF wfS i offk[of 10, simplified]] c10)
  have D: "\<forall>t m. wf_state t \<longrightarrow> fgt (m ! i) (limit (recalibrate m i t) ! i) \<longrightarrow>
            offct (update_channels m t) ! i = 0
            \<and> limit (update_channels m t) ! i = limit (recalibrate m i t) ! i"
    using update_channels_on[OF _ i] by blast
  from A B C D show ?thesis by blast
qed

lemma thr_pos_flt: "thr_pos l \<Longrightarrow> flt (Finite 0) l"
  using two_powi_pos[of "- 1074"] by (cases l) auto

lemma thr_pos_fmul:
  assumes "thr_pos l" and "1 / 2 < c"
  shows "thr_pos (fmul l (Finite c))"
proof (cases l)
  case (Finite q)
  then have q: "2 powi (- 1074) \<le> q" using assms(1) by simp
  have "(2::rat) powi (- 1075) = 2 powi (- 1074) * (1 / 2)"
    using power_int_add[of "2::rat" "- 1074" "- 1"] by simp
  also have "\<dots> < 2 powi (- 1074) * c"
    using assms(2) two_powi_pos[of "- 1074"] by (intro mult_strict_left_mono) simp_all
  also have "\<dots> \<le> q * c"
    using q assms(2) by (intro mult_right_mono) simp_all
  finally have x: "2 powi (- 1075) < q * c" .
  then have pos: "0 < q * c" using two_powi_pos[of "- 1075"] by linarith
  show ?thesis
    using rounded_ge_min[OF x] by (simp add: Finite round64_pos[OF pos])
next
  case PosInf
  then show ?thesis using assms(2) by simp
qed (use assms in simp_all)

lemma thr_pos_lit:
  assumes "thr_pos l"
  shows "thr_pos (fmul l lit_1_2)" and "thr_pos (fmul l lit_0_8)"
  using assms by (simp_all add: lit_1_2_eq lit_0_8_eq thr_pos_fmul)

lemma thr_pos_grown: "thr_pos l \<Longrightarrow> thr_pos (grown m l)"
  by (simp add: grown_def thr_pos_lit)

lemma thr_pos_chan_limit: "thr_pos l \<Longrightarrow> thr_pos (chan_limit m l k)"
  by (simp add: chan_limit_def thr_pos_grown thr_pos_lit)

lemma chan_limit_cases:
  "chan_limit m l k \<in> {l, fmul l lit_1_2, fmul l lit_0_8, fmul (fmul l lit_1_2) lit_0_8}"
  by (simp add: chan_limit_def grown_def)

lemma thr_pos_after_updates:
  assumes "wf_state s" and "\<forall>i<8. thr_pos (limit s ! i)"
  shows "\<forall>i<8. thr_pos (limit (after_updates ms s) ! i)"
  using assms
proof (induction ms arbitrary: s)
  case Nil
  then show ?case by (simp add: after_updates_def)
next
  case (Cons m ms)
  have wf': "wf_state (update_channels m s)" using Cons.prems(1) by (rule update_channels_wf)
  have "\<forall>i<8. thr_pos (limit (update_channels m s) ! i)"
    using Cons.prems(2) by (simp add: update_channels_nth[OF Cons.prems(1)] thr_pos_chan_limit)
  from Cons.IH[OF wf' this] show ?case by (simp add: after_updates_def)
qed

lemma thr_pos_init: "\<forall>i<8. thr_pos (limit init_state ! i)"
  by (simp add: init_state_fields)

text \<open>
  Claim C2. After every finite sequence of controller passes from the initial state,
  whatever the band values, every channel's threshold is greater than 0; and one more pass
  leaves it as it is or multiplies it by 1.2, by 0.8, or by 1.2 and then by 0.8: nothing
  else ever writes it. The thresholds are binary64 values: the product with 0.8 is
  rounded to nearest, so it never reaches 0.
\<close>

theorem threshold_stays_positive:
  "i < 8 \<Longrightarrow>
     flt (Finite 0) (limit (after_updates ms init_state) ! i)
     \<and> limit (update_channels m (after_updates ms init_state)) ! i \<in>
         {limit (after_updates ms init_state) ! i,
          fmul (limit (after_updates ms init_state) ! i) lit_1_2,
          fmul (limit (after_updates ms init_state) ! i) lit_0_8,
          fmul (fmul (limit (after_updates ms init_state) ! i) lit_1_2) lit_0_8}"
proof -
  assume i: "i < 8"
  have wf: "wf_state (after_updates ms init_state)" by (rule after_updates_wf[OF wf_init_state])
  have "thr_pos (limit (after_updates ms init_state) ! i)"
    using thr_pos_after_updates[OF wf_init_state thr_pos_init] i by blast
  then have pos: "flt (Finite 0) (limit (after_updates ms init_state) ! i)" by (rule thr_pos_flt)
  have "limit (update_channels m (after_updates ms init_state)) ! i \<in>
         {limit (after_updates ms init_state) ! i,
          fmul (limit (after_updates ms init_state) ! i) lit_1_2,
          fmul (limit (after_updates ms init_state) ! i) lit_0_8,
          fmul (fmul (limit (after_updates ms init_state) ! i) lit_1_2) lit_0_8}"
    unfolding update_channels_nth(1)[OF wf i] by (rule chan_limit_cases)
  with pos show ?thesis by blast
qed

theorem threshold_stays_positive_witness:
  "(0::nat) < 8
   \<and> flt (Finite 0) (limit (after_updates [replicate 8 (Finite 10)] init_state) ! 0)"
  using threshold_stays_positive[of 0 "[replicate 8 (Finite 10)]"] by simp

lemma thr_pos_not_below: "thr_pos l \<Longrightarrow> \<not> flt l (Finite 0)"
  using two_powi_pos[of "- 1074"] by (cases l) auto

theorem eleven_off_blocks_decay_once_witness:
  "wf_state init_state \<and> (0::nat) < 8 \<and> offct init_state ! 0 = 0
   \<and> length (replicate 11 (replicate 8 (Finite 0))) = 11
   \<and> offct (after_updates (replicate 11 (replicate 8 (Finite 0))) init_state) ! 0 = 0
   \<and> limit (after_updates (replicate 11 (replicate 8 (Finite 0))) init_state) ! 0 =
       fmul (limit (recalibrate (replicate 11 (replicate 8 (Finite 0)) ! 10) 0
               (after_updates (take 10 (replicate 11 (replicate 8 (Finite 0)))) init_state)) ! 0)
         lit_0_8"
proof -
  let ?ms = "replicate 11 (replicate 8 (Finite (0::rat)))"
  have h1: "wf_state init_state" by (rule wf_init_state)
  have h2: "(0::nat) < 8" by simp
  have h3: "offct init_state ! 0 = 0" by (simp add: init_state_fields)
  have h4: "length ?ms = 11" by simp
  have h5: "\<forall>k<11. \<not> fgt (?ms ! k ! 0)
         (limit (recalibrate (?ms ! k) 0 (after_updates (take k ?ms) init_state)) ! 0)"
  proof (intro allI impI)
    fix k :: nat assume k: "k < 11"
    let ?t = "after_updates (take k ?ms) init_state"
    have wf: "wf_state ?t" by (rule after_updates_wf[OF wf_init_state])
    then have li: "0 < length (limit ?t)" by (simp add: wf_state_def)
    have "thr_pos (limit ?t ! 0)"
      using thr_pos_after_updates[OF wf_init_state thr_pos_init, of "take k ?ms"] by simp
    then have "thr_pos (grown (?ms ! k ! 0) (limit ?t ! 0))" by (rule thr_pos_grown)
    then have "\<not> flt (limit (recalibrate (?ms ! k) 0 ?t) ! 0) (Finite 0)"
      unfolding recalibrate_limit_nth[OF li] by (rule thr_pos_not_below)
    then show "\<not> fgt (?ms ! k ! 0) (limit (recalibrate (?ms ! k) 0 ?t) ! 0)"
      using k by (simp add: fgt_def)
  qed
  show ?thesis
    using eleven_off_blocks_decay_once[OF h1 h2 h3 h4 h5] h1 h2 h3 h4 by blast
qed

section \<open>The bound on the thresholds\<close>

lemma rounded_grid47:
  assumes "0 < x"
  shows "rounded x < 32 \<or> of_int \<lfloor>rounded x * 2 ^ 47\<rfloor> = rounded x * 2 ^ 47"
proof (cases "x \<le> 32")
  case True
  have "rounded x \<le> 2 powi 5" using assms True by (intro rounded_le_pow2) simp_all
  then have "rounded x < 32 \<or> rounded x = 32" by auto
  then show ?thesis by auto
next
  case False
  then have "(2::rat) powi 5 \<le> x" by simp
  then have "5 \<le> ilog2 x" by (rule ilog2_ge)
  then have e: "- 47 \<le> ulp_exp x" using assms by (simp add: ulp_exp_def)
  have "rounded x * 2 ^ 47 =
          of_int (round_half_even (x / 2 powi ulp_exp x)) * (2 powi ulp_exp x * 2 powi 47)"
    by (simp add: rounded_def)
  also have "2 powi ulp_exp x * (2::rat) powi 47 = 2 powi (ulp_exp x + 47)"
    by (simp add: power_int_add)
  also have "\<dots> = of_int (2 ^ nat (ulp_exp x + 47))"
    using e by (simp add: power_int_nonneg_exp)
  finally have "rounded x * 2 ^ 47 =
      of_int (round_half_even (x / 2 powi ulp_exp x) * 2 ^ nat (ulp_exp x + 47))"
    by simp
  then have "of_int \<lfloor>rounded x * 2 ^ 47\<rfloor> = rounded x * 2 ^ 47"
    by (simp only: floor_of_int)
  then show ?thesis by simp
qed

lemma grid47_below_60:
  fixes q :: rat
  assumes "q < 60" and "q < 32 \<or> of_int \<lfloor>q * 2 ^ 47\<rfloor> = q * 2 ^ 47"
  shows "q \<le> 60 - 1 / 2 ^ 47"
proof (cases "q < 32")
  case True
  then show ?thesis by simp
next
  case False
  then have g: "of_int \<lfloor>q * 2 ^ 47\<rfloor> = q * 2 ^ 47" using assms(2) by simp
  have "q * 2 ^ 47 < 60 * 2 ^ 47" using assms(1) by simp
  then have "\<lfloor>q * 2 ^ 47\<rfloor> < 60 * 2 ^ 47"
    by (simp add: floor_less_iff)
  then have "\<lfloor>q * 2 ^ 47\<rfloor> \<le> 60 * 2 ^ 47 - 1" by simp
  then have "(of_int \<lfloor>q * 2 ^ 47\<rfloor> :: rat) \<le> of_int (60 * 2 ^ 47 - 1)"
    by (simp only: of_int_le_iff)
  then have "q * 2 ^ 47 \<le> of_int (60 * 2 ^ 47 - 1)" unfolding g .
  then show ?thesis by (simp add: field_simps)
qed

lemma rounded_below_72:
  assumes "0 < x" and "x < 72 - 1 / 2 ^ 47"
  shows "rounded x < 72"
proof (cases "x \<le> 64")
  case True
  have "rounded x \<le> 2 powi 6" using assms(1) True by (intro rounded_le_pow2) simp_all
  then show ?thesis by simp
next
  case False
  then have lo: "(2::rat) powi 6 \<le> x" by simp
  have hi: "x < 2 powi (6 + 1)" using assms(2) by simp
  have r: "rounded x = of_int (round_half_even (x * 2 powi (52 - 6))) * 2 powi (6 - 52)"
    using lo hi by (rule rounded_binade) simp
  have "x * 2 ^ 46 < (72 - 1 / 2 ^ 47) * 2 ^ 46"
    using assms(2) by (intro mult_strict_right_mono) simp_all
  then have "x * 2 powi (52 - 6) < of_int (72 * 2 ^ 46 - 1) + 1 / 2" by simp
  then have "round_half_even (x * 2 powi (52 - 6)) \<le> 72 * 2 ^ 46 - 1"
    by (intro round_half_even_le) simp_all
  then have "(of_int (round_half_even (x * 2 powi (52 - 6))) :: rat) \<le> of_int (72 * 2 ^ 46 - 1)"
    by (simp only: of_int_le_iff)
  then have "rounded x \<le> of_int (72 * 2 ^ 46 - 1) * 2 powi (6 - 52)"
    unfolding r by (intro mult_right_mono) simp_all
  also have "\<dots> < 72" by simp
  finally show ?thesis .
qed

lemma fmul_lit_0_6_le_60:
  assumes "in_0_100 m"
  shows "\<exists>r. fmul m lit_0_6 = Finite r \<and> r \<le> 60"
proof -
  obtain b where m: "m = Finite b" and b: "0 \<le> b" "b \<le> 100"
    using assms by (cases m) auto
  let ?x = "b * (5404319552844595 / 9007199254740992)"
  show ?thesis
  proof (cases "b = 0")
    case True
    then show ?thesis by (simp add: m lit_0_6_eq round64_def)
  next
    case False
    then have x: "0 < ?x" using b(1) by simp
    have "?x \<le> 100 * (5404319552844595 / 9007199254740992)"
      using b(2) by (intro mult_right_mono) simp_all
    then have x60: "?x \<le> 60" by simp
    have "rounded ?x \<le> of_int 60"
      using x60 by (intro rounded_le_int[OF x]) simp_all
    then have r: "rounded ?x \<le> 60" by simp
    then have "\<not> 2 powi 1024 \<le> rounded ?x" by simp
    then have "round64 ?x = Finite (rounded ?x)"
      by (simp only: round64_pos[OF x] if_False)
    moreover have "fmul m lit_0_6 = round64 ?x"
      by (simp only: m lit_0_6_eq fmul.simps)
    ultimately show ?thesis using r by (intro exI[of _ "rounded ?x"]) (simp only: simp_thms)
  qed
qed

lemma thr_inv_thr_pos: "thr_inv l \<Longrightarrow> thr_pos l"
  by (cases l) simp_all

lemma thr_inv_rounded:
  assumes "0 < x" and "thr_pos (round64 x)" and "rounded x < 72"
  shows "thr_inv (round64 x)"
proof -
  have "\<not> 2 powi 1024 \<le> rounded x" using assms(3) by simp
  then have r: "round64 x = Finite (rounded x)" by (simp add: round64_pos[OF assms(1)])
  show ?thesis
    using assms(2,3) rounded_grid47[OF assms(1)] unfolding r by simp
qed

lemma thr_inv_grow:
  assumes "thr_inv (Finite q)" and "q < 60"
  shows "thr_inv (fmul (Finite q) lit_1_2)"
proof -
  let ?c = "5404319552844595 / 4503599627370496 :: rat"
  have q: "0 < q" using assms(1) two_powi_pos[of "- 1074"] by simp
  then have x: "0 < q * ?c" by simp
  have "q \<le> 60 - 1 / 2 ^ 47"
    using assms by (intro grid47_below_60) simp_all
  then have "q * ?c \<le> (60 - 1 / 2 ^ 47) * ?c"
    by (intro mult_right_mono) simp_all
  also have "\<dots> < 72 - 1 / 2 ^ 47" by simp
  finally have "rounded (q * ?c) < 72" by (intro rounded_below_72[OF x])
  moreover have f: "fmul (Finite q) lit_1_2 = round64 (q * ?c)"
    by (simp only: lit_1_2_eq fmul.simps)
  moreover have "thr_pos (round64 (q * ?c))"
    using thr_pos_lit(1)[OF thr_inv_thr_pos[OF assms(1)]] unfolding f .
  ultimately show ?thesis
    using thr_inv_rounded[OF x] by (simp only:)
qed

lemma thr_inv_decay:
  assumes "thr_inv l"
  shows "thr_inv (fmul l lit_0_8)"
proof -
  obtain q where l: "l = Finite q" using assms by (cases l) auto
  let ?c = "3602879701896397 / 4503599627370496 :: rat"
  have q: "0 < q" "q < 72" using assms two_powi_pos[of "- 1074"] by (simp_all add: l)
  then have x: "0 < q * ?c" by simp
  have "q * ?c \<le> 72 * ?c" using q(2) by (intro mult_right_mono) simp_all
  also have "\<dots> \<le> 2 powi 6" by simp
  finally have "rounded (q * ?c) \<le> 2 powi 6" by (intro rounded_le_pow2[OF x]) simp_all
  then have "rounded (q * ?c) < 72" by simp
  moreover have f: "fmul l lit_0_8 = round64 (q * ?c)"
    by (simp only: l lit_0_8_eq fmul.simps)
  moreover have "thr_pos (round64 (q * ?c))"
    using thr_pos_lit(2)[OF thr_inv_thr_pos[OF assms]] unfolding f .
  ultimately show ?thesis
    using thr_inv_rounded[OF x] by (simp only:)
qed

lemma flt_NaN_right [simp]: "flt x NaN = False"
  by (cases x) simp_all

lemma thr_inv_grown:
  assumes "thr_inv l" and "in_0_100 m \<or> m = NaN"
  shows "thr_inv (grown m l)"
proof -
  obtain q where l: "l = Finite q" using assms(1) by (cases l) auto
  show ?thesis
  proof (cases "m = NaN")
    case True
    then show ?thesis using assms(1) by (simp add: grown_def)
  next
    case False
    then have "in_0_100 m" using assms(2) by simp
    then obtain r where r: "fmul m lit_0_6 = Finite r" "r \<le> 60"
      using fmul_lit_0_6_le_60 by blast
    show ?thesis
    proof (cases "flt l (fmul m lit_0_6)")
      case True
      then have "q < 60" using r by (simp add: l)
      then show ?thesis
        using True thr_inv_grow[of q] assms(1) by (simp add: grown_def l)
    next
      case False
      then show ?thesis using assms(1) by (simp add: grown_def)
    qed
  qed
qed

lemma thr_inv_chan_limit:
  assumes "thr_inv l" and "in_0_100 m \<or> m = NaN"
  shows "thr_inv (chan_limit m l k)"
  using thr_inv_grown[OF assms] by (simp add: chan_limit_def thr_inv_decay)

lemma thr_inv_after_updates:
  assumes "wf_state s" and "\<forall>i<8. thr_inv (limit s ! i)"
    and "\<forall>m\<in>set ms. \<forall>j<8. in_0_100 (m ! j) \<or> m ! j = NaN"
  shows "\<forall>i<8. thr_inv (limit (after_updates ms s) ! i)"
  using assms
proof (induction ms arbitrary: s)
  case Nil
  then show ?case by (simp add: after_updates_def)
next
  case (Cons m ms)
  have wf': "wf_state (update_channels m s)" using Cons.prems(1) by (rule update_channels_wf)
  have "\<forall>i<8. thr_inv (limit (update_channels m s) ! i)"
    using Cons.prems(2,3)
    by (simp add: update_channels_nth[OF Cons.prems(1)] thr_inv_chan_limit)
  from Cons.IH[OF wf' this] Cons.prems(3) show ?case by (simp add: after_updates_def)
qed

lemma thr_inv_init: "\<forall>i<8. thr_inv (limit init_state ! i)"
  by (simp add: init_state_fields)

lemma thr_inv_below_72: "thr_inv l \<Longrightarrow> flt l (Finite 72)"
  by (cases l) simp_all

text \<open>
  Claim C10. If every band value fed to the controller lies in \<open>[0, 100]\<close> (or is NaN, which
  the analyzer's clip lets through and which never makes a threshold grow), then after
  every sequence of passes from the initial state every threshold is strictly below 72.
  In binary64: growth needs a threshold below the rounded \<open>0.6 * band \<le> 60.0\<close>, so at
  most the double just below 60, whose product with 1.2 rounds below 72; decay only
  yields values below 64.
\<close>

theorem threshold_below_72:
  assumes "\<forall>m\<in>set ms. \<forall>j<8. in_0_100 (m ! j) \<or> m ! j = NaN" and "i < 8"
  shows "flt (limit (after_updates ms init_state) ! i) (Finite 72)"
  using thr_inv_after_updates[OF wf_init_state thr_inv_init assms(1)] assms(2)
  by (simp add: thr_inv_below_72)

theorem threshold_below_72_witness:
  "(0::nat) < 8
   \<and> flt (limit (after_updates [replicate 8 (Finite 100)] init_state) ! 0) (Finite 72)"
proof -
  have h1: "\<forall>m\<in>set [replicate 8 (Finite 100)]. \<forall>j<8. in_0_100 (m ! j) \<or> m ! j = NaN"
    by simp
  have h2: "(0::nat) < 8" by simp
  show ?thesis using threshold_below_72[OF h1 h2] h2 by blast
qed

section \<open>Writing and reading back the csv rows\<close>

lemma read_in_field:
  "list_all plain_char f \<Longrightarrow> length g + length f \<le> field_limit \<Longrightarrow>
   read_line_chars \<lparr>pstate = IN_FIELD, rec_fields = fs, rec_field = g\<rparr> (f @ rest) =
   read_line_chars \<lparr>pstate = IN_FIELD, rec_fields = fs, rec_field = g @ f\<rparr> rest"
proof (induction f arbitrary: g)
  case Nil
  then show ?case by simp
next
  case (Cons c f)
  from Cons.prems have c: "plain_char c" and f: "list_all plain_char f"
    and l: "length g < field_limit" "length (g @ [c]) + length f \<le> field_limit"
    by simp_all
  have "read_line_chars \<lparr>pstate = IN_FIELD, rec_fields = fs, rec_field = g\<rparr> ((c # f) @ rest) =
        read_line_chars \<lparr>pstate = IN_FIELD, rec_fields = fs, rec_field = g @ [c]\<rparr> (f @ rest)"
    using c l(1) by (simp add: plain_char_def parse_process_char_def parse_add_char_def)
  also have "\<dots> = read_line_chars \<lparr>pstate = IN_FIELD, rec_fields = fs, rec_field = (g @ [c]) @ f\<rparr> rest"
    by (rule Cons.IH[OF f l(2)])
  finally show ?case by simp
qed

lemma read_start_field:
  assumes "plain_field f" and "st = START_RECORD \<or> st = START_FIELD"
  shows "read_line_chars \<lparr>pstate = st, rec_fields = fs, rec_field = []\<rparr> (f @ rest) =
         read_line_chars \<lparr>pstate = IN_FIELD, rec_fields = fs, rec_field = f\<rparr> rest"
proof -
  obtain c f' where f: "f = c # f'" using assms(1) by (cases f) (auto simp add: plain_field_def)
  have c: "plain_char c" and f': "list_all plain_char f'" and l: "length [c] + length f' \<le> field_limit"
    using assms(1) by (simp_all add: plain_field_def f)
  have "read_line_chars \<lparr>pstate = st, rec_fields = fs, rec_field = []\<rparr> (f @ rest) =
        read_line_chars \<lparr>pstate = IN_FIELD, rec_fields = fs, rec_field = [c]\<rparr> (f' @ rest)"
    using c assms(2)
    by (auto simp add: f plain_char_def parse_process_char_def start_field_def parse_add_char_def
        set_pstate_def field_limit_def)
  also have "\<dots> = read_line_chars \<lparr>pstate = IN_FIELD, rec_fields = fs, rec_field = [c] @ f'\<rparr> rest"
    by (rule read_in_field[OF f' l])
  finally show ?thesis by (simp add: f)
qed

lemma read_row:
  "plain_row r \<Longrightarrow> st = START_RECORD \<or> st = START_FIELD \<Longrightarrow>
   read_line_chars \<lparr>pstate = st, rec_fields = fs, rec_field = []\<rparr> (join_fields r @ [CR, LF]) =
   Inr \<lparr>pstate = EAT_CRNL, rec_fields = fs @ r, rec_field = []\<rparr>"
proof (induction r arbitrary: fs st rule: join_fields.induct)
  case 1
  then show ?case by (simp add: plain_row_def)
next
  case (2 f)
  then have f: "plain_field f" by (simp add: plain_row_def)
  show ?case
    using read_start_field[OF f "2.prems"(2), of fs "[CR, LF]"]
    by (simp add: parse_process_char_def parse_save_field_def)
next
  case (3 f g r)
  then have f: "plain_field f" and r: "plain_row (g # r)" by (simp_all add: plain_row_def)
  have "read_line_chars \<lparr>pstate = st, rec_fields = fs, rec_field = []\<rparr>
          (join_fields (f # g # r) @ [CR, LF]) =
        read_line_chars \<lparr>pstate = IN_FIELD, rec_fields = fs, rec_field = f\<rparr>
          (CHR '','' # join_fields (g # r) @ [CR, LF])"
    using read_start_field[OF f "3.prems"(2), of fs "CHR '','' # join_fields (g # r) @ [CR, LF]"]
    by simp
  also have "\<dots> = read_line_chars \<lparr>pstate = START_FIELD, rec_fields = fs @ [f], rec_field = []\<rparr>
          (join_fields (g # r) @ [CR, LF])"
    by (simp add: parse_process_char_def parse_save_field_def)
  also have "\<dots> = Inr \<lparr>pstate = EAT_CRNL, rec_fields = (fs @ [f]) @ g # r, rec_field = []\<rparr>"
    by (rule "3.IH"[OF r]) simp
  finally show ?case by simp
qed

lemma write_field_plain: "plain_field f \<Longrightarrow> write_field a f = f"
proof -
  assume p: "plain_field f"
  then have "\<forall>c\<in>set f. c \<noteq> NUL" by (auto simp add: plain_field_def plain_char_def list_all_iff)
  then have t: "takeWhile (\<lambda>c. c \<noteq> NUL) f = f" by (simp add: takeWhile_eq_all_conv)
  have "\<not> needs_quotes f"
    using p by (auto simp add: plain_field_def plain_char_def list_all_iff needs_quotes_def)
  then show ?thesis using p by (simp add: write_field_def t Let_def plain_field_def)
qed

lemma writerow_plain: "plain_row r \<Longrightarrow> writerow r = join_fields r @ [CR, LF]"
proof -
  assume "plain_row r"
  then have "map (write_field (length r = 1)) r = r"
    by (intro map_idI) (simp add: plain_row_def list_all_iff write_field_plain)
  then show ?thesis by (simp add: writerow_def)
qed

lemma join_fields_no_LF: "list_all plain_field r \<Longrightarrow> LF \<notin> set (join_fields r)"
  by (induction r rule: join_fields.induct)
    (auto simp add: plain_field_def plain_char_def list_all_iff)

lemma py_lines_line:
  "LF \<notin> set xs \<Longrightarrow> py_lines cur (xs @ LF # rest) = (cur @ xs @ [LF]) # py_lines [] rest"
  by (induction xs arbitrary: cur) auto

lemma py_lines_writerows:
  "list_all plain_row rs \<Longrightarrow> py_lines [] (writerows rs) = map (\<lambda>r. join_fields r @ [CR, LF]) rs"
proof (induction rs)
  case Nil
  then show ?case by (simp add: writerows_def)
next
  case (Cons r rs)
  then have r: "plain_row r" and rs: "list_all plain_row rs" by simp_all
  have nl: "LF \<notin> set (join_fields r @ [CR])"
    using join_fields_no_LF[of r] r by (simp add: plain_row_def)
  have "writerows (r # rs) = (join_fields r @ [CR]) @ LF # writerows rs"
    by (simp add: writerows_def writerow_plain[OF r])
  then show ?case
    using py_lines_line[OF nl, of "[]" "writerows rs"] Cons.IH[OF rs] by simp
qed

lemma csv_lines_rows:
  "list_all plain_row rs \<Longrightarrow>
   csv_lines parse_reset rows (map (\<lambda>r. join_fields r @ [CR, LF]) rs) = Inr (rows @ rs)"
proof (induction rs arbitrary: rows)
  case Nil
  then show ?case by (simp add: parse_reset_def)
next
  case (Cons r rs)
  then have r: "plain_row r" and rs: "list_all plain_row rs" by simp_all
  have "read_line_chars parse_reset (join_fields r @ [CR, LF]) =
          Inr \<lparr>pstate = EAT_CRNL, rec_fields = [] @ r, rec_field = []\<rparr>"
    unfolding parse_reset_def by (rule read_row[OF r]) simp
  then show ?case
    using Cons.IH[OF rs, of "rows @ [r]"] by (simp add: parse_process_char_def)
qed

lemma csv_roundtrip: "list_all plain_row rs \<Longrightarrow> csv_reader (writerows rs) = Inr rs"
  by (simp add: csv_reader_def py_lines_writerows csv_lines_rows)

section \<open>Fresh runs and replays\<close>

lemma bit_plain_field: "f = ''0'' \<or> f = ''1'' \<Longrightarrow> plain_field f"
  by (auto simp add: plain_field_def plain_char_def field_limit_def)

lemma bit_row_plain: "bit_row r \<Longrightarrow> plain_row r"
proof -
  assume b: "bit_row r"
  then have "r \<noteq> []" by (auto simp add: bit_row_def)
  moreover have "list_all plain_field r"
    using b by (simp add: bit_row_def list_all_iff bit_plain_field)
  ultimately show ?thesis by (simp add: plain_row_def)
qed

lemma sync_record_plain: "sync_record rs \<Longrightarrow> list_all plain_row rs"
  by (simp add: sync_record_def list_all_iff bit_row_plain)

lemma py_int_bits: "py_int ''0'' = Inr 0" "py_int ''1'' = Inr 1"
  by (simp_all add: py_int_def py_isspace_def py_isdigit_def digit_val_def Let_def)

lemma replay_channels_bits:
  "\<forall>j\<in>set js. j < length (entry s) \<and> (entry s ! j = ''0'' \<or> entry s ! j = ''1'') \<Longrightarrow>
   replay_channels js s =
     Inr (s\<lparr>gpio_out := gpio_out s @ map (\<lambda>j. (gpio ! j, entry s ! j = ''1'')) js\<rparr>)"
proof (induction js arbitrary: s)
  case Nil
  show ?case by simp
next
  case (Cons j js)
  then have j: "j < length (entry s)" "entry s ! j = ''0'' \<or> entry s ! j = ''1''"
    and js: "\<forall>k\<in>set js. k < length (entry s) \<and> (entry s ! k = ''0'' \<or> entry s ! k = ''1'')"
    by simp_all
  from j(2) show ?case
  proof
    assume e: "entry s ! j = ''0''"
    have "replay_channels (j # js) s = replay_channels js (TurnOffLight j s)"
      using j(1) by (simp add: e py_int_bits)
    also have "\<dots> = Inr ((TurnOffLight j s)\<lparr>gpio_out := gpio_out (TurnOffLight j s) @
                 map (\<lambda>k. (gpio ! k, entry (TurnOffLight j s) ! k = ''1'')) js\<rparr>)"
    proof (rule Cons.IH[of "TurnOffLight j s"])
      show "\<forall>k\<in>set js. k < length (entry (TurnOffLight j s)) \<and>
              (entry (TurnOffLight j s) ! k = ''0'' \<or> entry (TurnOffLight j s) ! k = ''1'')"
        using js by (simp add: TurnOffLight_def)
    qed
    finally show ?thesis by (simp add: TurnOffLight_def e)
  next
    assume e: "entry s ! j = ''1''"
    have "replay_channels (j # js) s = replay_channels js (TurnOnLight j s)"
      using j(1) by (simp add: e py_int_bits)
    also have "\<dots> = Inr ((TurnOnLight j s)\<lparr>gpio_out := gpio_out (TurnOnLight j s) @
                 map (\<lambda>k. (gpio ! k, entry (TurnOnLight j s) ! k = ''1'')) js\<rparr>)"
    proof (rule Cons.IH[of "TurnOnLight j s"])
      show "\<forall>k\<in>set js. k < length (entry (TurnOnLight j s)) \<and>
              (entry (TurnOnLight j s) ! k = ''0'' \<or> entry (TurnOnLight j s) ! k = ''1'')"
        using js by (simp add: TurnOnLight_def)
    qed
    finally show ?thesis by (simp add: TurnOnLight_def e)
  qed
qed

lemma replay_block:
  assumes "cache_found s" and "row s < length (cache s)" and "bit_row (cache s ! row s)"
  shows "process_block sp sr data s =
     Inr (s\<lparr>entry := cache s ! row s, gpio_out := gpio_out s @ row_events (cache s ! row s)\<rparr>)"
proof -
  let ?t = "s\<lparr>entry := cache s ! row s\<rparr>"
  have len: "length (cache s ! row s) = 8"
    and bits: "\<forall>j<8. cache s ! row s ! j = ''0'' \<or> cache s ! row s ! j = ''1''"
    using assms(3) by (simp_all add: bit_row_def list_all_length)
  have "\<forall>j\<in>set [0..<8]. j < length (entry ?t) \<and> (entry ?t ! j = ''0'' \<or> entry ?t ! j = ''1'')"
    using len bits by (simp del: upt_Suc)
  then have rc: "replay_channels [0..<8] ?t =
       Inr (?t\<lparr>gpio_out := gpio_out ?t @ map (\<lambda>j. (gpio ! j, entry ?t ! j = ''1'')) [0..<8]\<rparr>)"
    by (rule replay_channels_bits)
  have "process_block sp sr data s = replay_channels [0..<8] ?t"
    using assms(1,2) by (simp only: process_block_def if_True)
  also note rc
  also have "?t\<lparr>gpio_out := gpio_out ?t @ map (\<lambda>j. (gpio ! j, entry ?t ! j = ''1'')) [0..<8]\<rparr> =
       s\<lparr>entry := cache s ! row s, gpio_out := gpio_out s @ row_events (cache s ! row s)\<rparr>"
    by (simp add: row_events_def del: upt_Suc)
  finally show ?thesis .
qed

lemma replay_past_end_block:
  assumes "cache_found s" and "length (cache s) \<le> row s"
  shows "process_block sp sr data s = Inr (s\<lparr>logged := logged s @ [RanOut]\<rparr>)"
  using assms by (simp add: process_block_def)

lemma replay_past_end_audio:
  "cache_found s \<Longrightarrow> length (cache s) \<le> row s \<Longrightarrow>
   process_audio sp sr blocks s =
     Inr (s\<lparr>logged := logged s @ replicate (length blocks) RanOut, row := row s + length blocks\<rparr>)"
proof (induction blocks arbitrary: s)
  case Nil
  show ?case by simp
next
  case (Cons d ds)
  let ?t = "s\<lparr>logged := logged s @ [RanOut], row := row s + 1\<rparr>"
  have t: "cache_found ?t" "length (cache ?t) \<le> row ?t" using Cons.prems by simp_all
  have "process_audio sp sr (d # ds) s = process_audio sp sr ds ?t"
    by (simp add: replay_past_end_block[OF Cons.prems])
  also have "\<dots> = Inr (?t\<lparr>logged := logged ?t @ replicate (length ds) RanOut,
                            row := row ?t + length ds\<rparr>)"
    by (rule Cons.IH[OF t])
  also have "\<dots> = Inr (s\<lparr>logged := logged s @ replicate (length (d # ds)) RanOut,
                            row := row s + length (d # ds)\<rparr>)"
    by simp
  finally show ?case .
qed

lemma bit_str_eq_1 [simp]: "(bit_str b = ''1'') = b"
  by (simp add: bit_str_def)







lemma load_cache_stored:
  "sync_record rows \<Longrightarrow> fs name = Some (writerows rows) \<Longrightarrow>
   load_cache fs name s = Inr (s\<lparr>cache := rows, cache_found := True\<rparr>)"
  by (simp add: load_cache_def Let_def csv_roundtrip[OF sync_record_plain])





section \<open>The cache, the end of the cache and empty bands\<close>

lemma lights_of_append:
  "lights_of (xs @ ys) = foldl (\<lambda>f (pin, level). f(pin := level)) (lights_of xs) ys"
  by (simp add: lights_of_def)

lemma lights_of_row:
  assumes "j < 8"
  shows "lights_of (xs @ map (\<lambda>k. (gpio ! k, b k)) [0..<8]) (gpio ! j) = b j"
proof -
  from assms have "j = 0 \<or> j = 1 \<or> j = 2 \<or> j = 3 \<or> j = 4 \<or> j = 5 \<or> j = 6 \<or> j = 7"
    by arith
  then show ?thesis
    by (auto simp add: lights_of_append upt_8 gpio_def)
qed

text \<open>
  Claim C6. Storing a SyncRecord (rows of eight fields, each \<^verbatim>\<open>'0'\<close> or \<^verbatim>\<open>'1'\<close>) at the end
  of a fresh run, under the cache file name of a song, and loading the cache of the same
  song gives back the same rows, field for field, and marks the cache as found. This
  holds for every such record, the empty one included.
\<close>

theorem cache_store_load_roundtrip:
  assumes "sync_record (cache s)" and "\<not> cache_found s"
  shows "load_cache (fst (store_cache fs (cache_filename file) s)) (cache_filename file) s' =
           Inr (s'\<lparr>cache := cache s, cache_found := True\<rparr>)"
proof -
  have "fst (store_cache fs (cache_filename file) s) (cache_filename file) =
          Some (writerows (cache s))"
    using assms(2) by (simp add: store_cache_def)
  with assms(1) show ?thesis by (rule load_cache_stored)
qed

theorem cache_store_load_roundtrip_witness:
  "sync_record (cache (init_state\<lparr>cache := [[''1'', ''0'', ''1'', ''1'', ''0'', ''0'', ''0'', ''1'']]\<rparr>))
   \<and> \<not> cache_found (init_state\<lparr>cache := [[''1'', ''0'', ''1'', ''1'', ''0'', ''0'', ''0'', ''1'']]\<rparr>)
   \<and> load_cache
        (fst (store_cache Map.empty (cache_filename ''/home/pi/song.mp3'')
               (init_state\<lparr>cache := [[''1'', ''0'', ''1'', ''1'', ''0'', ''0'', ''0'', ''1'']]\<rparr>)))
        (cache_filename ''/home/pi/song.mp3'') init_state =
       Inr (init_state\<lparr>cache := [[''1'', ''0'', ''1'', ''1'', ''0'', ''0'', ''0'', ''1'']],
                        cache_found := True\<rparr>)"
proof -
  let ?s = "init_state\<lparr>cache := [[''1'', ''0'', ''1'', ''1'', ''0'', ''0'', ''0'', ''1'']]\<rparr>"
  have h1: "sync_record (cache ?s)" by (simp add: sync_record_def bit_row_def)
  have h2: "\<not> cache_found ?s" by (simp add: init_state_fields)
  show ?thesis
    using cache_store_load_roundtrip[OF h1 h2, of Map.empty "''/home/pi/song.mp3''" init_state] h1 h2
    by simp
qed

text \<open>
  Claim C7. In replay mode a block whose index is at or past the end of the cache makes
  no \<^verbatim>\<open>GPIO.output\<close> call and logs one warning, nothing else. So when the block of the
  last cached row has been replayed, every pin shows that row's value, and after any
  number of further blocks the sequence of GPIO writes is still the same: every pin keeps
  the level the last cached row gave it; each further block adds one warning and no call
  of \<^verbatim>\<open>calculate_levels\<close>.
\<close>

theorem replay_past_end_freezes:
  assumes "cache_found s" and "row s + 1 = length (cache s)" and "bit_row (cache s ! row s)"
  shows "(\<exists>s1 s'. process_block sp sr d s = Inr s1
            \<and> (\<forall>j<8. lights_of (gpio_out s1) (gpio ! j) = (cache s ! row s ! j = ''1''))
            \<and> process_audio sp sr (d # later) s = Inr s'
            \<and> gpio_out s' = gpio_out s1
            \<and> (\<forall>j<8. lights_of (gpio_out s') (gpio ! j) = (cache s ! row s ! j = ''1''))
            \<and> logged s' = logged s1 @ replicate (length later) RanOut
            \<and> fft_calls s' = fft_calls s1)
       \<and> (\<forall>t data. cache_found t \<longrightarrow> length (cache t) \<le> row t \<longrightarrow>
             process_block sp sr data t = Inr (t\<lparr>logged := logged t @ [RanOut]\<rparr>))"
proof -
  let ?r = "cache s ! row s"
  let ?s1 = "s\<lparr>entry := ?r, gpio_out := gpio_out s @ row_events ?r\<rparr>"
  have lt: "row s < length (cache s)" using assms(2) by simp
  have blk: "process_block sp sr d s = Inr ?s1"
    by (rule replay_block[OF assms(1) lt assms(3)])
  have l1: "\<forall>j<8. lights_of (gpio_out ?s1) (gpio ! j) = (?r ! j = ''1'')"
    by (simp add: row_events_def lights_of_row del: upt_Suc)
  let ?s2 = "?s1\<lparr>row := row ?s1 + 1\<rparr>"
  have a: "cache_found ?s2" "length (cache ?s2) \<le> row ?s2" using assms(1,2) by simp_all
  let ?s' = "?s2\<lparr>logged := logged ?s2 @ replicate (length later) RanOut,
                  row := row ?s2 + length later\<rparr>"
  have "process_audio sp sr (d # later) s = process_audio sp sr later ?s2"
    by (simp add: blk)
  also have "\<dots> = Inr ?s'" by (rule replay_past_end_audio[OF a])
  finally have run: "process_audio sp sr (d # later) s = Inr ?s'" .
  have g: "gpio_out ?s' = gpio_out ?s1" by simp
  have l2: "\<forall>j<8. lights_of (gpio_out ?s') (gpio ! j) = (?r ! j = ''1'')"
    using l1 by (simp only: g)
  have lg: "logged ?s' = logged ?s1 @ replicate (length later) RanOut" by simp
  have ff: "fft_calls ?s' = fft_calls ?s1" by simp
  have A: "\<exists>s1 s'. process_block sp sr d s = Inr s1
            \<and> (\<forall>j<8. lights_of (gpio_out s1) (gpio ! j) = (?r ! j = ''1''))
            \<and> process_audio sp sr (d # later) s = Inr s'
            \<and> gpio_out s' = gpio_out s1
            \<and> (\<forall>j<8. lights_of (gpio_out s') (gpio ! j) = (?r ! j = ''1''))
            \<and> logged s' = logged s1 @ replicate (length later) RanOut
            \<and> fft_calls s' = fft_calls s1"
    using blk l1 run g l2 lg ff by blast
  have B: "\<forall>t data. cache_found t \<longrightarrow> length (cache t) \<le> row t \<longrightarrow>
             process_block sp sr data t = Inr (t\<lparr>logged := logged t @ [RanOut]\<rparr>)"
    by (intro allI impI) (rule replay_past_end_block)
  from A B show ?thesis by (rule conjI)
qed

theorem replay_past_end_freezes_witness:
  "cache_found (init_state\<lparr>cache := [[''1'', ''0'', ''1'', ''1'', ''0'', ''0'', ''0'', ''1'']],
                           cache_found := True\<rparr>)
   \<and> row (init_state\<lparr>cache := [[''1'', ''0'', ''1'', ''1'', ''0'', ''0'', ''0'', ''1'']],
                      cache_found := True\<rparr>) + 1 =
       length (cache (init_state\<lparr>cache := [[''1'', ''0'', ''1'', ''1'', ''0'', ''0'', ''0'', ''1'']],
                                 cache_found := True\<rparr>))
   \<and> (\<exists>s1 s'. process_block (\<lambda>d. d) 44100 []
                  (init_state\<lparr>cache := [[''1'', ''0'', ''1'', ''1'', ''0'', ''0'', ''0'', ''1'']],
                              cache_found := True\<rparr>) = Inr s1
          \<and> process_audio (\<lambda>d. d) 44100 [[], [], []]
                  (init_state\<lparr>cache := [[''1'', ''0'', ''1'', ''1'', ''0'', ''0'', ''0'', ''1'']],
                              cache_found := True\<rparr>) = Inr s'
          \<and> gpio_out s' = gpio_out s1
          \<and> logged s' = logged s1 @ replicate (length [[], [] :: float64 list]) RanOut)"
proof -
  let ?s = "init_state\<lparr>cache := [[''1'', ''0'', ''1'', ''1'', ''0'', ''0'', ''0'', ''1'']],
                        cache_found := True\<rparr>"
  have h1: "cache_found ?s" by simp
  have h2: "row ?s + 1 = length (cache ?s)" by (simp add: init_state_fields)
  have h3: "bit_row (cache ?s ! row ?s)" by (simp add: init_state_fields bit_row_def)
  from replay_past_end_freezes[OF h1 h2 h3, of "\<lambda>d. d" 44100 "[]" "[[], []]"]
  have "\<exists>s1 s'. process_block (\<lambda>d. d) 44100 [] ?s = Inr s1
          \<and> process_audio (\<lambda>d. d) 44100 [[], [], []] ?s = Inr s'
          \<and> gpio_out s' = gpio_out s1
          \<and> logged s' = logged s1 @ replicate (length [[], [] :: float64 list]) RanOut"
    by blast
  with h1 h2 show ?thesis by blast
qed

lemma round64_0 [simp]: "round64 0 = Finite 0"
  by (simp add: round64_def)

lemma np_mean_Nil: "np_mean [] = NaN"
  by (simp add: np_mean_def)

lemma fmul_NaN_left [simp]: "fmul NaN y = NaN"
  by simp

lemma fdiv_NaN_left [simp]: "fdiv NaN y = NaN"
  by simp

lemma calculate_levels_nth:
  assumes "sr \<noteq> 0" and "k < 8"
  shows "\<exists>m. calculate_levels sp data sr = Inr m \<and> length m = 8
          \<and> m ! k = clip 0 100 (fdiv (fmul (np_mean (py_slice (sp data)
                        (piff sr (fst (bands ! k))) (piff sr (snd (bands ! k)))))
                      (Finite (of_int (weighting ! k)))) (Finite 100000))"
proof -
  have lb: "length bands = 8" and lw: "length weighting = 8"
    by (simp_all add: bands_def weighting_def)
  show ?thesis
    using assms lb lw
    by (simp add: calculate_levels_def Let_def case_prod_beta)
qed

text \<open>
  What the analyzer returns is what claim C10 assumes of the band values: each is in
  \<open>[0, 100]\<close> or NaN.
\<close>

lemma clip_0_100: "in_0_100 (clip 0 100 v) \<or> clip 0 100 v = NaN"
  by (cases v) simp_all

lemma calculate_levels_clipped:
  assumes "calculate_levels sp data sr = Inr m"
  shows "length m = 8 \<and> (\<forall>j<8. in_0_100 (m ! j) \<or> m ! j = NaN)"
proof -
  have sr: "sr \<noteq> 0" using assms by (auto simp add: calculate_levels_def split: if_splits)
  have "in_0_100 (m ! j) \<or> m ! j = NaN" if j: "j < 8" for j
    using calculate_levels_nth[OF sr j, of sp data] assms clip_0_100 by auto
  moreover have "length m = 8"
    using calculate_levels_nth[OF sr, of 0 sp data] assms by auto
  ultimately show ?thesis by blast
qed

text \<open>
  Claim C8, as amended. When the slice of the spectrum for band \<open>k\<close> is empty,
  \<^verbatim>\<open>calculate_levels\<close> raises no error: it returns eight values of which the \<open>k\<close>-th is
  NaN (the mean of an empty slice, which the clip leaves alone). The controller then
  classifies channel \<open>k\<close> OFF and does not recalibrate its threshold.
\<close>

theorem empty_band_gives_nan:
  assumes "sr \<noteq> 0" and "k < 8"
    and "py_slice (sp data) (piff sr (fst (bands ! k))) (piff sr (snd (bands ! k))) = []"
  shows "\<exists>m. calculate_levels sp data sr = Inr m \<and> length m = 8 \<and> m ! k = NaN
           \<and> (\<forall>s. wf_state s \<longrightarrow>
                  entry (update_channels m s) ! k = ''0''
                  \<and> limit (recalibrate m k s) ! k = limit s ! k)"
proof -
  from calculate_levels_nth[OF assms(1,2), of sp data] obtain m
    where m: "calculate_levels sp data sr = Inr m" "length m = 8" "m ! k = NaN"
    by (auto simp add: assms(3) np_mean_Nil)
  have "entry (update_channels m s) ! k = ''0'' \<and> limit (recalibrate m k s) ! k = limit s ! k"
    if wf: "wf_state s" for s
  proof -
    have lk: "k < length (limit s)" using wf assms(2) by (simp add: wf_state_def)
    have g: "grown NaN (limit s ! k) = limit s ! k" by (simp add: grown_def)
    have "\<not> chan_on NaN (limit s ! k)" by (simp add: chan_on_def fgt_def)
    then show ?thesis
      by (simp add: update_channels_nth[OF wf assms(2)] recalibrate_limit_nth[OF lk] m(3) g
          bit_str_def)
  qed
  with m show ?thesis by blast
qed

theorem empty_band_gives_nan_witness:
  "(44100::int) \<noteq> 0 \<and> (7::nat) < 8
   \<and> py_slice [Finite 0, Finite 0, Finite 0, Finite 0]
        (piff 44100 (fst (bands ! 7))) (piff 44100 (snd (bands ! 7))) = []
   \<and> (\<exists>m. calculate_levels (\<lambda>d. d) [Finite 0, Finite 0, Finite 0, Finite 0] 44100 = Inr m
          \<and> m ! 7 = NaN)"
proof -
  have h1: "(44100::int) \<noteq> 0" by simp
  have h2: "(7::nat) < 8" by simp
  have h3: "py_slice ((\<lambda>d. d) [Finite 0, Finite 0, Finite 0, Finite 0])
        (piff 44100 (fst (bands ! 7))) (piff 44100 (snd (bands ! 7))) = []"
    by (simp add: py_slice_def piff_def chunk_def bands_def Let_def)
  from empty_band_gives_nan[where sp = "\<lambda>d. d" and data = "[Finite 0, Finite 0, Finite 0, Finite 0]",
      OF h1 h2 h3]
  have "\<exists>m. calculate_levels (\<lambda>d. d) [Finite 0, Finite 0, Finite 0, Finite 0] 44100 = Inr m
          \<and> m ! 7 = NaN"
    by blast
  with h1 h2 h3 show ?thesis by simp
qed

lemma piff_44100:
  "piff 44100 0 = 0" "piff 44100 156 = 28" "piff 44100 313 = 58" "piff 44100 625 = 116"
  "piff 44100 1250 = 232" "piff 44100 2500 = 464" "piff 44100 5000 = 928"
  "piff 44100 10000 = 1857" "piff 44100 15000 = 2786"
  by (simp_all add: piff_def chunk_def)

lemma slice_first: "py_slice [a, b, c, d] 0 28 = [a, b, c, d]"
  by (simp add: py_slice_def Let_def)

lemma slice_beyond: "4 \<le> lo \<Longrightarrow> 0 \<le> hi \<Longrightarrow> py_slice [a, b, c, d] lo hi = []"
  by (simp add: py_slice_def Let_def)

lemma mean_zeros: "np_mean [Finite 0, Finite 0, Finite 0, Finite 0] = Finite 0"
  by (simp add: np_mean_def)

text \<open>
  Claim C8 as stated fails: for a last block of four silent stereo frames at 44100 Hz the
  spectrum has four bins, the bin range of band 1 (156 Hz to 313 Hz) is empty, and the
  analyzer neither fails nor returns 0 for the band: it returns NaN for bands 1 to 7.
\<close>

theorem empty_band_counterexample:
  "py_slice [Finite 0, Finite 0, Finite 0, Finite 0] (piff 44100 156) (piff 44100 313) = []
   \<and> calculate_levels (\<lambda>d. d) [Finite 0, Finite 0, Finite 0, Finite 0] 44100 =
       Inr [Finite 0, NaN, NaN, NaN, NaN, NaN, NaN, NaN]"
  by (simp add: calculate_levels_def bands_def weighting_def Let_def piff_44100 slice_first
      slice_beyond mean_zeros np_mean_Nil)

end
